theory Spec2Isabelle
  imports Main "HOL-Library.Word" "HOL-Library.List_Lexorder" "HOL-Library.Option_ord"
    "HOL-Library.Char_ord"
begin

section \<open>Data model of the keytransform package\<close>

subsection \<open>Keys, transforms, entries\<close>

text \<open>
  \<^verbatim>\<open>key.Key\<close> is an interface: a value of it is either \<^verbatim>\<open>nil\<close> (\<open>None\<close>) or a
  concrete key. The concrete key type is left open.
\<close>

type_synonym 'k Key = "'k option"

type_synonym bytes = "8 word list"

text \<open>
  A \<^verbatim>\<open>KeyTransform\<close> is an interface with the methods \<^verbatim>\<open>ConvertKey\<close> and
  \<^verbatim>\<open>InvertKey\<close>. \<^verbatim>\<open>prepareQuery\<close> switches on its dynamic type, so the model keeps
  the dynamic type beside the two methods.
\<close>

datatype TransformType = PrefixTransform | PrefixTransformPtr | OtherTransform

record 'k KeyTransform =
  ConvertKey :: "'k Key \<Rightarrow> 'k Key"
  InvertKey :: "'k Key \<Rightarrow> 'k Key"
  DynType :: TransformType

datatype error = ErrBatchUnsupported | Err string

datatype Context = Context nat

text \<open>
  The structs \<^verbatim>\<open>dsq.Entry\<close>, \<^verbatim>\<open>dsq.Range\<close> and \<^verbatim>\<open>dsq.Query\<close> are declared in package
  \<^verbatim>\<open>query\<close>; the records have the fields that this package reads or writes, and the
  size of an entry.
\<close>

record 'k Entry =
  Key :: "'k Key"
  Value :: bytes
  Size :: int

text \<open>\<^verbatim>\<open>dsq.Result\<close> embeds \<^verbatim>\<open>Entry\<close> and adds \<^verbatim>\<open>Error\<close>.\<close>

record 'k Result = "'k Entry" +
  Error :: "error option"

subsection \<open>Queries\<close>

type_synonym Op = string

text \<open>
  \<^verbatim>\<open>dsq.Order\<close> and \<^verbatim>\<open>dsq.Filter\<close> are interfaces. The constructors below are the
  dynamic types that \<^verbatim>\<open>prepareQuery\<close> names in its type switches (a value and a pointer
  form of each), and one more constructor for every other implementation of the
  interface, given by its method (\<^verbatim>\<open>Compare\<close>, respectively \<^verbatim>\<open>Filter\<close>). A pointer form
  stands for a pointer that is not \<^verbatim>\<open>nil\<close> and holds the fields of its pointee.
\<close>

datatype 'k Order =
    OrderByValue
  | OrderByValuePtr
  | OrderByValueDescending
  | OrderByValueDescendingPtr
  | OrderByKey
  | OrderByKeyPtr
  | OrderByKeyDescending
  | OrderByKeyDescendingPtr
  | OrderOther "'k Entry \<Rightarrow> 'k Entry \<Rightarrow> int"

datatype 'k Filter =
    FilterValueCompare Op bytes
  | FilterValueComparePtr Op bytes
  | FilterKeyCompare Op "'k Key"
  | FilterKeyComparePtr Op "'k Key"
  | FilterKeyPrefix "'k Key"
  | FilterKeyPrefixPtr "'k Key"
  | FilterOther "'k Entry \<Rightarrow> bool"

record 'k Range =
  Start :: "'k Key"
  End :: "'k Key"

record 'k Query =
  Prefix :: "'k Key"
  Range :: "'k Range"
  Orders :: "'k Order list"
  Filters :: "'k Filter list"
  Offset :: int
  Limit :: int

text \<open>The zero values of \<^verbatim>\<open>dsq.Range\<close> and \<^verbatim>\<open>dsq.Query\<close>.\<close>

definition zeroRange :: "'k Range" where
  "zeroRange = \<lparr>Start = None, End = None\<rparr>"

definition zeroQuery :: "'k Query" where
  "zeroQuery = \<lparr>Prefix = None, Range = zeroRange, Orders = [], Filters = [],
     Offset = 0, Limit = 0\<rparr>"

subsection \<open>The interfaces of the child store\<close>

text \<open>
  The child store, its result streams and its batches are objects behind interfaces. An
  object is modelled by its methods, each a function on the state \<open>'s\<close> of the child side
  (everything the child's objects can read and write); a method returns its results
  together with the new state. Go's pair \<^verbatim>\<open>(value, err)\<close> is a pair whose second
  component is \<open>None\<close> for a \<^verbatim>\<open>nil\<close> error.
\<close>

record ('k, 's) dsq_Results =
  results_NextSync :: "'s \<Rightarrow> ('k Result \<times> bool) \<times> 's"
  results_Close :: "'s \<Rightarrow> error option \<times> 's"

record ('k, 's) ds_Batch =
  batch_Put :: "Context \<Rightarrow> 'k Key \<Rightarrow> bytes \<Rightarrow> 's \<Rightarrow> error option \<times> 's"
  batch_Delete :: "Context \<Rightarrow> 'k Key \<Rightarrow> 's \<Rightarrow> error option \<times> 's"
  batch_Commit :: "Context \<Rightarrow> 's \<Rightarrow> error option \<times> 's"

text \<open>
  \<open>ds_Batching\<close> is \<open>None\<close> when the dynamic type of the child does not implement
  \<^verbatim>\<open>ds.Batching\<close>, and its method \<^verbatim>\<open>Batch\<close> otherwise. A result stream or a batch
  returned by the child is an interface value and may be \<^verbatim>\<open>nil\<close> (\<open>None\<close>).
\<close>

record ('k, 's) ds_Datastore =
  ds_Put :: "Context \<Rightarrow> 'k Key \<Rightarrow> bytes \<Rightarrow> 's \<Rightarrow> error option \<times> 's"
  ds_Sync :: "Context \<Rightarrow> 'k Key \<Rightarrow> 's \<Rightarrow> error option \<times> 's"
  ds_Get :: "Context \<Rightarrow> 'k Key \<Rightarrow> 's \<Rightarrow> (bytes \<times> error option) \<times> 's"
  ds_Has :: "Context \<Rightarrow> 'k Key \<Rightarrow> 's \<Rightarrow> (bool \<times> error option) \<times> 's"
  ds_GetSize :: "Context \<Rightarrow> 'k Key \<Rightarrow> 's \<Rightarrow> (int \<times> error option) \<times> 's"
  ds_Delete :: "Context \<Rightarrow> 'k Key \<Rightarrow> 's \<Rightarrow> error option \<times> 's"
  ds_Query :: "Context \<Rightarrow> 'k Query \<Rightarrow> 's
     \<Rightarrow> (('k, 's) dsq_Results option \<times> error option) \<times> 's"
  ds_Batching :: "(Context \<Rightarrow> 's \<Rightarrow> (('k, 's) ds_Batch option \<times> error option) \<times> 's) option"

subsection \<open>The wrapping datastore\<close>

text \<open>
  The struct \<^verbatim>\<open>Datastore\<close> holds the child store and the embedded \<^verbatim>\<open>KeyTransform\<close>.
\<close>

record ('k, 's) Datastore =
  child :: "('k, 's) ds_Datastore"
  KeyTransform :: "'k KeyTransform"

text \<open>
  \<^verbatim>\<open>dsq.Iterator\<close>, a struct of two closures. A closure of \<^verbatim>\<open>Query\<close> calls a method
  of the child's result stream; on a \<^verbatim>\<open>nil\<close> stream that call panics, which is the
  result \<open>None\<close>.
\<close>

record ('k, 's) dsq_Iterator =
  Next :: "'s \<Rightarrow> (('k Result \<times> bool) \<times> 's) option"
  Close :: "'s \<Rightarrow> (error option \<times> 's) option"

section \<open>prepareQuery\<close>

text \<open>
  The type switch on \<^verbatim>\<open>d.KeyTransform\<close>: \<^verbatim>\<open>orderPreserving\<close> is set for
  \<^verbatim>\<open>PrefixTransform\<close> and \<^verbatim>\<open>*PrefixTransform\<close> only.
\<close>

fun orderPreserving :: "TransformType \<Rightarrow> bool" where
  "orderPreserving PrefixTransform = True"
| "orderPreserving PrefixTransformPtr = True"
| "orderPreserving OtherTransform = False"

text \<open>
  The type switch on an order has two case lists; \<open>CaseNone\<close> stands for a dynamic type
  that neither list names.
\<close>

datatype OrderCase = CaseByValue | CaseByKey | CaseNone

fun orderCase :: "'k Order \<Rightarrow> OrderCase" where
  "orderCase OrderByValue = CaseByValue"
| "orderCase OrderByValuePtr = CaseByValue"
| "orderCase OrderByValueDescending = CaseByValue"
| "orderCase OrderByValueDescendingPtr = CaseByValue"
| "orderCase OrderByKey = CaseByKey"
| "orderCase OrderByKeyPtr = CaseByKey"
| "orderCase OrderByKeyDescending = CaseByKey"
| "orderCase OrderByKeyDescendingPtr = CaseByKey"
| "orderCase (OrderOther c) = CaseNone"

text \<open>
  The statements after the switch in the body of the loop over the orders: the order is
  punted to the naive query, together with offset and limit.
\<close>

definition puntOrders :: "'k Query \<Rightarrow> 'k Query \<times> 'k Query \<Rightarrow> 'k Query \<times> 'k Query" where
  "puntOrders q nc =
     ((fst nc)\<lparr>Orders := Orders q, Offset := Offset q, Limit := Limit q\<rparr>,
      (snd nc)\<lparr>Orders := [], Offset := 0, Limit := 0\<rparr>)"

text \<open>
  The loop \<^verbatim>\<open>for i, o := range child.Orders\<close>. The arguments are the flag, the
  caller's query, the index \<open>i\<close>, the orders not yet visited and the pair \<open>nc\<close> of
  \<^verbatim>\<open>naive\<close> and \<^verbatim>\<open>child\<close> under construction. A by-value order continues; a by-key order under
  an order-preserving transform cuts \<^verbatim>\<open>child.Orders\<close> to \<^verbatim>\<open>[:i+1]\<close> and leaves the loop;
  everything else reaches the statements after the switch and leaves the loop.
\<close>

fun ordersLoop ::
  "bool \<Rightarrow> 'k Query \<Rightarrow> nat \<Rightarrow> 'k Order list \<Rightarrow> 'k Query \<times> 'k Query \<Rightarrow> 'k Query \<times> 'k Query"
where
  "ordersLoop op q i [] nc = nc"
| "ordersLoop op q i (ord # os) nc =
     (case orderCase ord of
        CaseByValue \<Rightarrow> ordersLoop op q (i + 1) os nc
      | CaseByKey \<Rightarrow>
          if op then (fst nc, (snd nc)\<lparr>Orders := take (i + 1) (Orders (snd nc))\<rparr>)
          else puntOrders q nc
      | CaseNone \<Rightarrow> puntOrders q nc)"

text \<open>The statements after the switch in the body of the loop over the filters.\<close>

definition puntFilters :: "'k Query \<Rightarrow> 'k Query \<times> 'k Query \<Rightarrow> 'k Query \<times> 'k Query" where
  "puntFilters q nc =
     ((fst nc)\<lparr>Filters := Filters q, Offset := Offset q, Limit := Limit q\<rparr>,
      (snd nc)\<lparr>Filters := [], Offset := 0, Limit := 0\<rparr>)"

text \<open>
  The assignment \<^verbatim>\<open>child.Filters[i] = ...\<close>. The index is always in range, since the
  loop runs over \<^verbatim>\<open>child.Filters\<close> itself.
\<close>

definition setFilter :: "nat \<Rightarrow> 'k Filter \<Rightarrow> 'k Query \<times> 'k Query \<Rightarrow> 'k Query \<times> 'k Query" where
  "setFilter i f nc = (fst nc, (snd nc)\<lparr>Filters := (Filters (snd nc))[i := f]\<rparr>)"

text \<open>
  The loop \<^verbatim>\<open>for i, f := range child.Filters\<close>, with the same arguments as
  \<open>ordersLoop\<close> and the conversion \<^verbatim>\<open>d.ConvertKey\<close> in place of the flag.
\<close>

fun filtersLoop ::
  "('k Key \<Rightarrow> 'k Key) \<Rightarrow> 'k Query \<Rightarrow> nat \<Rightarrow> 'k Filter list \<Rightarrow> 'k Query \<times> 'k Query
     \<Rightarrow> 'k Query \<times> 'k Query"
where
  "filtersLoop cv q i [] nc = nc"
| "filtersLoop cv q i (FilterValueCompare opr v # fs) nc = filtersLoop cv q (i + 1) fs nc"
| "filtersLoop cv q i (FilterValueComparePtr opr v # fs) nc = filtersLoop cv q (i + 1) fs nc"
| "filtersLoop cv q i (FilterKeyCompare opr k # fs) nc =
     filtersLoop cv q (i + 1) fs (setFilter i (FilterKeyCompare opr (cv k)) nc)"
| "filtersLoop cv q i (FilterKeyComparePtr opr k # fs) nc =
     filtersLoop cv q (i + 1) fs (setFilter i (FilterKeyComparePtr opr (cv k)) nc)"
| "filtersLoop cv q i (FilterKeyPrefix p # fs) nc =
     filtersLoop cv q (i + 1) fs (setFilter i (FilterKeyPrefix (cv p)) nc)"
| "filtersLoop cv q i (FilterKeyPrefixPtr p # fs) nc =
     filtersLoop cv q (i + 1) fs (setFilter i (FilterKeyPrefixPtr (cv p)) nc)"
| "filtersLoop cv q i (FilterOther p # fs) nc = puntFilters q nc"

text \<open>
  The three statements on \<^verbatim>\<open>child.Range\<close>: it is set to the zero range first, and
  the two tests for a bound that follow read the range just written.
\<close>

definition convertRange :: "('k Key \<Rightarrow> 'k Key) \<Rightarrow> 'k Query \<Rightarrow> 'k Query" where
  "convertRange cv c0 =
     (let c1 = c0\<lparr>Range := zeroRange\<rparr>;
          c2 = (if Start (Range c1) \<noteq> None
                then c1\<lparr>Range := (Range c1)\<lparr>Start := cv (Start (Range c1))\<rparr>\<rparr> else c1);
          c3 = (if End (Range c2) \<noteq> None
                then c2\<lparr>Range := (Range c2)\<lparr>End := cv (End (Range c2))\<rparr>\<rparr> else c2)
      in c3)"

text \<open>
  \<^verbatim>\<open>prepareQuery\<close>. The function \<^verbatim>\<open>key.Clean\<close> is declared in another package and
  is a parameter. The result \<^verbatim>\<open>naive\<close> is a named result, so it starts as the zero
  query (\<open>nv\<close>); \<^verbatim>\<open>child\<close> starts as \<open>q\<close> (\<open>ch\<close>). The first component of the result
  is \<^verbatim>\<open>naive\<close>, the second \<^verbatim>\<open>child\<close>. The copy of the filters before the second loop
  has the same elements as the original, so it is the identity here; the model on
  slices further down allocates it.
\<close>

definition prepareQuery ::
  "('k Key \<Rightarrow> 'k Key) \<Rightarrow> ('k, 's) Datastore \<Rightarrow> 'k Query \<Rightarrow> 'k Query \<times> 'k Query"
where
  "prepareQuery Clean d q =
     (let cv = ConvertKey (KeyTransform d);
          nv = zeroQuery;
          ch = q;
          ch = ch\<lparr>Prefix := cv (Clean (Prefix ch))\<rparr>;
          ch = convertRange cv ch;
          op = orderPreserving (DynType (KeyTransform d));
          nc = ordersLoop op q 0 (Orders ch) (nv, ch);
          nc = (fst nc, (snd nc)\<lparr>Filters := Filters (snd nc)\<rparr>);
          nc = filtersLoop cv q 0 (Filters (snd nc)) nc
      in nc)"

section \<open>prepareQuery on slices\<close>

text \<open>
  \<^verbatim>\<open>Orders\<close> and \<^verbatim>\<open>Filters\<close> are slices: windows on backing arrays that the caller's
  query, \<^verbatim>\<open>naive\<close> and \<^verbatim>\<open>child\<close> may share. \<open>prepareQuery\<close> above works on the
  contents of the slices. The second model below keeps the arrays in a store, so that
  a write through one slice is seen through every slice on the same array.

  A slice is \<^verbatim>\<open>nil\<close> or the address of an array, an offset into it and a length. The
  capacity is left out: the only reslicing, \<^verbatim>\<open>[:i+1]\<close> with \<open>i\<close> below the length, stays
  inside the length. The pointer forms of orders and filters hold their pointee by
  value: no statement of \<^verbatim>\<open>prepareQuery\<close> writes through such a pointer (the rewritten
  filter is a new object).
\<close>

datatype Slice = NilSlice | Slice nat nat nat

fun len :: "Slice \<Rightarrow> nat" where
  "len NilSlice = 0"
| "len (Slice a off n) = n"

record 'k Heap =
  nextAddr :: nat
  orderArrays :: "nat \<Rightarrow> 'k Order list option"
  filterArrays :: "nat \<Rightarrow> 'k Filter list option"

text \<open>The elements seen through a slice.\<close>

definition elems :: "(nat \<Rightarrow> 'a list option) \<Rightarrow> Slice \<Rightarrow> 'a list" where
  "elems arrs sl =
     (case sl of
        NilSlice \<Rightarrow> []
      | Slice a off n \<Rightarrow> (case arrs a of None \<Rightarrow> [] | Some xs \<Rightarrow> take n (drop off xs)))"

text \<open>
  A slice of a running program lies inside an allocated array; this is the condition
  under which the model below is the program.
\<close>

definition wfSlice :: "nat \<Rightarrow> (nat \<Rightarrow> 'a list option) \<Rightarrow> Slice \<Rightarrow> bool" where
  "wfSlice nxt arrs sl =
     (case sl of
        NilSlice \<Rightarrow> True
      | Slice a off n \<Rightarrow>
          a < nxt \<and> (case arrs a of None \<Rightarrow> False | Some xs \<Rightarrow> off + n \<le> length xs))"

text \<open>The query with its two slices.\<close>

record 'k QueryS =
  PrefixS :: "'k Key"
  RangeS :: "'k Range"
  OrdersS :: Slice
  FiltersS :: Slice
  OffsetS :: int
  LimitS :: int

definition zeroQueryS :: "'k QueryS" where
  "zeroQueryS = \<lparr>PrefixS = None, RangeS = zeroRange, OrdersS = NilSlice, FiltersS = NilSlice,
     OffsetS = 0, LimitS = 0\<rparr>"

definition wfQueryS :: "'k Heap \<Rightarrow> 'k QueryS \<Rightarrow> bool" where
  "wfQueryS h q \<longleftrightarrow>
     wfSlice (nextAddr h) (orderArrays h) (OrdersS q) \<and>
     wfSlice (nextAddr h) (filterArrays h) (FiltersS q)"

text \<open>The query that a query on slices denotes in a store.\<close>

definition readQuery :: "'k Heap \<Rightarrow> 'k QueryS \<Rightarrow> 'k Query" where
  "readQuery h q = \<lparr>Prefix = PrefixS q, Range = RangeS q,
     Orders = elems (orderArrays h) (OrdersS q), Filters = elems (filterArrays h) (FiltersS q),
     Offset = OffsetS q, Limit = LimitS q\<rparr>"

text \<open>The expression \<^verbatim>\<open>s[:m]\<close>.\<close>

fun resliceTo :: "Slice \<Rightarrow> nat \<Rightarrow> Slice" where
  "resliceTo NilSlice m = NilSlice"
| "resliceTo (Slice a off n) m = Slice a off m"

definition puntOrdersS :: "'k QueryS \<Rightarrow> 'k QueryS \<times> 'k QueryS \<Rightarrow> 'k QueryS \<times> 'k QueryS" where
  "puntOrdersS q nc =
     ((fst nc)\<lparr>OrdersS := OrdersS q, OffsetS := OffsetS q, LimitS := LimitS q\<rparr>,
      (snd nc)\<lparr>OrdersS := NilSlice, OffsetS := 0, LimitS := 0\<rparr>)"

text \<open>
  The loop over the orders. No statement writes to an array of orders, so the loop
  runs over the elements that \<^verbatim>\<open>child.Orders\<close> shows when the loop starts.
\<close>

fun ordersLoopS ::
  "bool \<Rightarrow> 'k QueryS \<Rightarrow> nat \<Rightarrow> 'k Order list \<Rightarrow> 'k QueryS \<times> 'k QueryS
     \<Rightarrow> 'k QueryS \<times> 'k QueryS"
where
  "ordersLoopS op q i [] nc = nc"
| "ordersLoopS op q i (ord # os) nc =
     (case orderCase ord of
        CaseByValue \<Rightarrow> ordersLoopS op q (i + 1) os nc
      | CaseByKey \<Rightarrow>
          if op then (fst nc, (snd nc)\<lparr>OrdersS := resliceTo (OrdersS (snd nc)) (i + 1)\<rparr>)
          else puntOrdersS q nc
      | CaseNone \<Rightarrow> puntOrdersS q nc)"

text \<open>
  \<^verbatim>\<open>append([]dsq.Filter(nil), s...)\<close>: appending nothing to the \<^verbatim>\<open>nil\<close> slice gives
  \<^verbatim>\<open>nil\<close>; otherwise a new array is allocated and filled with the elements of \<open>s\<close>.
\<close>

definition copyFilters :: "'k Heap \<Rightarrow> Slice \<Rightarrow> Slice \<times> 'k Heap" where
  "copyFilters h sl =
     (if len sl = 0 then (NilSlice, h)
      else (Slice (nextAddr h) 0 (len sl),
            h\<lparr>nextAddr := nextAddr h + 1,
              filterArrays := (filterArrays h)(nextAddr h \<mapsto> elems (filterArrays h) sl)\<rparr>))"

text \<open>The assignment \<^verbatim>\<open>s[i] = x\<close>, for an index below the length.\<close>

definition storeAt ::
  "Slice \<Rightarrow> nat \<Rightarrow> 'a \<Rightarrow> (nat \<Rightarrow> 'a list option) \<Rightarrow> (nat \<Rightarrow> 'a list option)"
where
  "storeAt sl i x arrs =
     (case sl of
        NilSlice \<Rightarrow> arrs
      | Slice a off n \<Rightarrow>
          (case arrs a of None \<Rightarrow> arrs | Some xs \<Rightarrow> arrs(a \<mapsto> xs[off + i := x])))"

definition setFilterS :: "Slice \<Rightarrow> nat \<Rightarrow> 'k Filter \<Rightarrow> 'k Heap \<Rightarrow> 'k Heap" where
  "setFilterS sl i x h = h\<lparr>filterArrays := storeAt sl i x (filterArrays h)\<rparr>"

definition puntFiltersS :: "'k QueryS \<Rightarrow> 'k QueryS \<times> 'k QueryS \<Rightarrow> 'k QueryS \<times> 'k QueryS" where
  "puntFiltersS q nc =
     ((fst nc)\<lparr>FiltersS := FiltersS q, OffsetS := OffsetS q, LimitS := LimitS q\<rparr>,
      (snd nc)\<lparr>FiltersS := NilSlice, OffsetS := 0, LimitS := 0\<rparr>)"

text \<open>
  The loop over the filters, on the slice \<open>sl\<close> that \<^verbatim>\<open>child.Filters\<close> is when the loop
  starts. The arguments \<open>i\<close> and \<open>k\<close> are the index and the number of iterations left.
  Each iteration reads element \<open>i\<close> from the store as it is then.
\<close>

fun filtersLoopS ::
  "('k Key \<Rightarrow> 'k Key) \<Rightarrow> 'k QueryS \<Rightarrow> Slice \<Rightarrow> nat \<Rightarrow> nat
     \<Rightarrow> 'k Heap \<times> 'k QueryS \<times> 'k QueryS \<Rightarrow> 'k Heap \<times> 'k QueryS \<times> 'k QueryS"
where
  "filtersLoopS cv q sl i 0 hnc = hnc"
| "filtersLoopS cv q sl i (Suc k) hnc =
     (case elems (filterArrays (fst hnc)) sl ! i of
        FilterValueCompare opr v \<Rightarrow> filtersLoopS cv q sl (i + 1) k hnc
      | FilterValueComparePtr opr v \<Rightarrow> filtersLoopS cv q sl (i + 1) k hnc
      | FilterKeyCompare opr key \<Rightarrow>
          filtersLoopS cv q sl (i + 1) k
            (setFilterS sl i (FilterKeyCompare opr (cv key)) (fst hnc), snd hnc)
      | FilterKeyComparePtr opr key \<Rightarrow>
          filtersLoopS cv q sl (i + 1) k
            (setFilterS sl i (FilterKeyComparePtr opr (cv key)) (fst hnc), snd hnc)
      | FilterKeyPrefix p \<Rightarrow>
          filtersLoopS cv q sl (i + 1) k
            (setFilterS sl i (FilterKeyPrefix (cv p)) (fst hnc), snd hnc)
      | FilterKeyPrefixPtr p \<Rightarrow>
          filtersLoopS cv q sl (i + 1) k
            (setFilterS sl i (FilterKeyPrefixPtr (cv p)) (fst hnc), snd hnc)
      | FilterOther p \<Rightarrow> (fst hnc, puntFiltersS q (snd hnc)))"

definition convertRangeS :: "('k Key \<Rightarrow> 'k Key) \<Rightarrow> 'k QueryS \<Rightarrow> 'k QueryS" where
  "convertRangeS cv c0 =
     (let c1 = c0\<lparr>RangeS := zeroRange\<rparr>;
          c2 = (if Start (RangeS c1) \<noteq> None
                then c1\<lparr>RangeS := (RangeS c1)\<lparr>Start := cv (Start (RangeS c1))\<rparr>\<rparr> else c1);
          c3 = (if End (RangeS c2) \<noteq> None
                then c2\<lparr>RangeS := (RangeS c2)\<lparr>End := cv (End (RangeS c2))\<rparr>\<rparr> else c2)
      in c3)"

text \<open>
  \<^verbatim>\<open>prepareQuery\<close> with the store: the result is the store after the call, \<^verbatim>\<open>naive\<close>
  and \<^verbatim>\<open>child\<close>.
\<close>

definition prepareQueryS ::
  "('k Key \<Rightarrow> 'k Key) \<Rightarrow> ('k, 's) Datastore \<Rightarrow> 'k Heap \<Rightarrow> 'k QueryS
     \<Rightarrow> 'k Heap \<times> 'k QueryS \<times> 'k QueryS"
where
  "prepareQueryS Clean d h q =
     (let cv = ConvertKey (KeyTransform d);
          nv = zeroQueryS;
          ch = q;
          ch = ch\<lparr>PrefixS := cv (Clean (PrefixS ch))\<rparr>;
          ch = convertRangeS cv ch;
          op = orderPreserving (DynType (KeyTransform d));
          nc = ordersLoopS op q 0 (elems (orderArrays h) (OrdersS ch)) (nv, ch);
          cp = copyFilters h (FiltersS (snd nc));
          nc = (fst nc, (snd nc)\<lparr>FiltersS := fst cp\<rparr>);
          hnc = filtersLoopS cv q (fst cp) 0 (len (fst cp)) (snd cp, nc)
      in hnc)"

text \<open>
  The pair of queries after the loop over the orders, a name for the statements below.
\<close>

definition afterOrdersS ::
  "('k Key \<Rightarrow> 'k Key) \<Rightarrow> ('k, 's) Datastore \<Rightarrow> 'k Heap \<Rightarrow> 'k QueryS \<Rightarrow> 'k QueryS \<times> 'k QueryS"
where
  "afterOrdersS Clean d h q =
     ordersLoopS (orderPreserving (DynType (KeyTransform d))) q 0
       (elems (orderArrays h) (OrdersS q))
       (zeroQueryS, q\<lparr>PrefixS := ConvertKey (KeyTransform d) (Clean (PrefixS q)),
                        RangeS := zeroRange\<rparr>)"

section \<open>Point operations\<close>

text \<open>Each method converts the key and calls the same method of the child.\<close>

definition Datastore_Put ::
  "('k, 's) Datastore \<Rightarrow> Context \<Rightarrow> 'k Key \<Rightarrow> bytes \<Rightarrow> 's \<Rightarrow> error option \<times> 's"
where
  "Datastore_Put d ctx key val s = ds_Put (child d) ctx (ConvertKey (KeyTransform d) key) val s"

definition Datastore_Sync ::
  "('k, 's) Datastore \<Rightarrow> Context \<Rightarrow> 'k Key \<Rightarrow> 's \<Rightarrow> error option \<times> 's"
where
  "Datastore_Sync d ctx pfx s = ds_Sync (child d) ctx (ConvertKey (KeyTransform d) pfx) s"

definition Datastore_Get ::
  "('k, 's) Datastore \<Rightarrow> Context \<Rightarrow> 'k Key \<Rightarrow> 's \<Rightarrow> (bytes \<times> error option) \<times> 's"
where
  "Datastore_Get d ctx key s = ds_Get (child d) ctx (ConvertKey (KeyTransform d) key) s"

definition Datastore_Has ::
  "('k, 's) Datastore \<Rightarrow> Context \<Rightarrow> 'k Key \<Rightarrow> 's \<Rightarrow> (bool \<times> error option) \<times> 's"
where
  "Datastore_Has d ctx key s = ds_Has (child d) ctx (ConvertKey (KeyTransform d) key) s"

definition Datastore_GetSize ::
  "('k, 's) Datastore \<Rightarrow> Context \<Rightarrow> 'k Key \<Rightarrow> 's \<Rightarrow> (int \<times> error option) \<times> 's"
where
  "Datastore_GetSize d ctx key s = ds_GetSize (child d) ctx (ConvertKey (KeyTransform d) key) s"

definition Datastore_Delete ::
  "('k, 's) Datastore \<Rightarrow> Context \<Rightarrow> 'k Key \<Rightarrow> 's \<Rightarrow> error option \<times> 's"
where
  "Datastore_Delete d ctx key s = ds_Delete (child d) ctx (ConvertKey (KeyTransform d) key) s"

section \<open>The iterator of Query\<close>

text \<open>
  The closure \<^verbatim>\<open>Next\<close> that \<^verbatim>\<open>Query\<close> builds over the child's stream \<open>cqr\<close>: when the
  child has no further result, its result is passed on with \<open>False\<close>; otherwise the key
  is inverted if the result carries no error.
\<close>

definition Query_Next ::
  "('k, 's) Datastore \<Rightarrow> ('k, 's) dsq_Results option \<Rightarrow> 's \<Rightarrow> (('k Result \<times> bool) \<times> 's) option"
where
  "Query_Next d cqr s =
     (case cqr of
        None \<Rightarrow> None
      | Some c \<Rightarrow>
          (case results_NextSync c s of
             ((r, ok), s') \<Rightarrow>
               if \<not> ok then Some ((r, False), s')
               else if Error r = None
                 then Some ((r\<lparr>Key := InvertKey (KeyTransform d) (Key r)\<rparr>, True), s')
                 else Some ((r, True), s')))"

definition Query_Close ::
  "('k, 's) dsq_Results option \<Rightarrow> 's \<Rightarrow> (error option \<times> 's) option"
where
  "Query_Close cqr s = (case cqr of None \<Rightarrow> None | Some c \<Rightarrow> Some (results_Close c s))"

definition Query_Iterator ::
  "('k, 's) Datastore \<Rightarrow> ('k, 's) dsq_Results option \<Rightarrow> ('k, 's) dsq_Iterator"
where
  "Query_Iterator d cqr = \<lparr>Next = Query_Next d cqr, Close = Query_Close cqr\<rparr>"

text \<open>
  Reading a stream: the results that a \<^verbatim>\<open>Next\<close> function yields, at most \<open>n\<close> of them,
  up to the first call that reports the end or panics.
\<close>

fun drain :: "nat \<Rightarrow> ('s \<Rightarrow> (('k Result \<times> bool) \<times> 's) option) \<Rightarrow> 's \<Rightarrow> 'k Result list" where
  "drain 0 nxt s = []"
| "drain (Suc n) nxt s =
     (case nxt s of
        None \<Rightarrow> []
      | Some ((r, ok), s') \<Rightarrow> if ok then r # drain n nxt s' else [])"

section \<open>Batches\<close>

text \<open>The struct \<^verbatim>\<open>transformBatch\<close>; \<^verbatim>\<open>KeyMapping\<close> is a function type.\<close>

record ('k, 's) transformBatch =
  dst :: "('k, 's) ds_Batch option"
  f :: "'k Key \<Rightarrow> 'k Key"

text \<open>
  \<^verbatim>\<open>Batch\<close>: the type assertion on the child, then the child's \<^verbatim>\<open>Batch\<close>, whose
  error is returned as it is.
\<close>

definition Datastore_Batch ::
  "('k, 's) Datastore \<Rightarrow> Context \<Rightarrow> 's
     \<Rightarrow> (('k, 's) transformBatch option \<times> error option) \<times> 's"
where
  "Datastore_Batch d ctx s =
     (case ds_Batching (child d) of
        None \<Rightarrow> ((None, Some ErrBatchUnsupported), s)
      | Some bds_Batch \<Rightarrow>
          (case bds_Batch ctx s of
             ((childbatch, err), s') \<Rightarrow>
               if err \<noteq> None then ((None, err), s')
               else ((Some \<lparr>dst = childbatch, f = ConvertKey (KeyTransform d)\<rparr>, None), s')))"

text \<open>
  The methods of \<^verbatim>\<open>transformBatch\<close>. A call on a \<^verbatim>\<open>nil\<close> \<^verbatim>\<open>dst\<close> panics (\<open>None\<close>).
\<close>

definition transformBatch_Put ::
  "('k, 's) transformBatch \<Rightarrow> Context \<Rightarrow> 'k Key \<Rightarrow> bytes \<Rightarrow> 's \<Rightarrow> (error option \<times> 's) option"
where
  "transformBatch_Put t ctx key val s =
     (case dst t of None \<Rightarrow> None | Some b \<Rightarrow> Some (batch_Put b ctx (f t key) val s))"

definition transformBatch_Delete ::
  "('k, 's) transformBatch \<Rightarrow> Context \<Rightarrow> 'k Key \<Rightarrow> 's \<Rightarrow> (error option \<times> 's) option"
where
  "transformBatch_Delete t ctx key s =
     (case dst t of None \<Rightarrow> None | Some b \<Rightarrow> Some (batch_Delete b ctx (f t key) s))"

definition transformBatch_Commit ::
  "('k, 's) transformBatch \<Rightarrow> Context \<Rightarrow> 's \<Rightarrow> (error option \<times> 's) option"
where
  "transformBatch_Commit t ctx s =
     (case dst t of None \<Rightarrow> None | Some b \<Rightarrow> Some (batch_Commit b ctx s))"

section \<open>Query\<close>

text \<open>
  \<^verbatim>\<open>Query\<close>. The functions \<^verbatim>\<open>dsq.ResultsFromIterator\<close> and \<^verbatim>\<open>dsq.NaiveQueryApply\<close> are
  declared in another package and are the parameters \<open>rfi\<close> and \<open>nqa\<close>; \<open>'r\<close> is the type
  of the result streams they build. An error of the child's \<^verbatim>\<open>Query\<close> is returned at
  once, with no stream.
\<close>

definition Datastore_Query ::
  "('k Query \<Rightarrow> ('k, 's) dsq_Iterator \<Rightarrow> 'r) \<Rightarrow> ('k Query \<Rightarrow> 'r \<Rightarrow> 'r) \<Rightarrow> ('k Key \<Rightarrow> 'k Key)
     \<Rightarrow> ('k, 's) Datastore \<Rightarrow> Context \<Rightarrow> 'k Query \<Rightarrow> 's \<Rightarrow> ('r option \<times> error option) \<times> 's"
where
  "Datastore_Query rfi nqa Clean d ctx q s =
     (let nc = prepareQuery Clean d q
      in case ds_Query (child d) ctx (snd nc) s of
           ((cqr, err), s') \<Rightarrow>
             if err \<noteq> None then ((None, err), s')
             else ((Some (nqa (fst nc) (rfi q (Query_Iterator d cqr))), None), s'))"

section \<open>The meaning of a query\<close>

text \<open>
  What a query selects from the contents of a store, and what the post-processor does
  to a stream, is decided by code that is not part of this package: the package
  \<^verbatim>\<open>query\<close> and the child store. This section models it from the specification, on
  lists of entries (the
  results without an error, in the order of the stream). Keys are linearly ordered
  (``totally ordered by byte/lexicographic comparison over its canonical string form'');
  values are byte strings in lexicographic order.
\<close>

text \<open>
  Modelled from the spec: the result of a three-way comparison, negative, zero or
  positive, as the method \<^verbatim>\<open>Compare\<close> of an order returns it (package \<^verbatim>\<open>query\<close>).
\<close>

definition cmp3 :: "'a::linorder \<Rightarrow> 'a \<Rightarrow> int" where
  "cmp3 a b = (if a < b then - 1 else if b < a then 1 else 0)"

text \<open>
  Modelled from the spec: the method \<^verbatim>\<open>Compare\<close> of an order (package \<^verbatim>\<open>query\<close>): ``by-key
  ascending/descending, by-value ascending/descending''. An order of another kind brings
  its own comparison.
\<close>

fun Order_Compare :: "'k::linorder Order \<Rightarrow> 'k Entry \<Rightarrow> 'k Entry \<Rightarrow> int" where
  "Order_Compare OrderByValue a b = cmp3 (Value a) (Value b)"
| "Order_Compare OrderByValuePtr a b = cmp3 (Value a) (Value b)"
| "Order_Compare OrderByValueDescending a b = cmp3 (Value b) (Value a)"
| "Order_Compare OrderByValueDescendingPtr a b = cmp3 (Value b) (Value a)"
| "Order_Compare OrderByKey a b = cmp3 (Key a) (Key b)"
| "Order_Compare OrderByKeyPtr a b = cmp3 (Key a) (Key b)"
| "Order_Compare OrderByKeyDescending a b = cmp3 (Key b) (Key a)"
| "Order_Compare OrderByKeyDescendingPtr a b = cmp3 (Key b) (Key a)"
| "Order_Compare (OrderOther c) a b = c a b"

text \<open>
  Modelled from the spec: the comparison of two entries under a list of orders (package
  \<^verbatim>\<open>query\<close>): ``first Order is primary sort key, subsequent Orders break ties''. The
  specification does not say which of two entries comes first when no order tells them
  apart. The parameter \<open>tie\<close> covers two rules: the entry with the smaller key comes
  first (\<open>True\<close>), or neither is below the other and a sort keeps them in the order of
  the stream (\<open>False\<close>).
\<close>

fun entryLess :: "bool \<Rightarrow> 'k::linorder Order list \<Rightarrow> 'k Entry \<Rightarrow> 'k Entry \<Rightarrow> bool" where
  "entryLess tie [] a b = (tie \<and> Key a < Key b)"
| "entryLess tie (ord # os) a b =
     (Order_Compare ord a b < 0 \<or> (Order_Compare ord a b = 0 \<and> entryLess tie os a b))"

text \<open>
  Modelled from the spec: sorting by a comparison, as an insertion sort that keeps the
  order of the stream between elements of which neither is below the other. Where the
  comparison tells any two elements of the list apart, every sorting algorithm yields
  this list (lemma \<open>sortBy_unique\<close> below).
\<close>

fun insertBy :: "('a \<Rightarrow> 'a \<Rightarrow> bool) \<Rightarrow> 'a \<Rightarrow> 'a list \<Rightarrow> 'a list" where
  "insertBy lt x [] = [x]"
| "insertBy lt x (y # ys) = (if lt y x then y # insertBy lt x ys else x # y # ys)"

fun sortBy :: "('a \<Rightarrow> 'a \<Rightarrow> bool) \<Rightarrow> 'a list \<Rightarrow> 'a list" where
  "sortBy lt [] = []"
| "sortBy lt (x # xs) = insertBy lt x (sortBy lt xs)"

text \<open>
  Modelled from the spec: the ordering step of the post-processor (package \<^verbatim>\<open>query\<close>).
  A query without orders leaves the stream as it is.
\<close>

definition NaiveOrder :: "bool \<Rightarrow> 'k::linorder Order list \<Rightarrow> 'k Entry list \<Rightarrow> 'k Entry list" where
  "NaiveOrder tie os es = (if os = [] then es else sortBy (entryLess tie os) es)"

text \<open>
  Modelled from the spec: what the specification leaves open about the query engine, as
  parameters: when an operator of a compare filter accepts the result of a comparison
  (\<open>opHolds\<close>), when a key-prefix filter with the prefix \<open>p\<close> accepts the key \<open>k\<close>
  (\<open>hasPrefix p k\<close>), when the key \<open>k\<close> lies under the prefix \<open>p\<close> of a query
  (\<open>underPrefix p k\<close>), and the rule for ties when sorting (packages \<^verbatim>\<open>query\<close> and
  \<^verbatim>\<open>key\<close>).
\<close>

record 'k QueryOps =
  opHolds :: "Op \<Rightarrow> int \<Rightarrow> bool"
  hasPrefix :: "'k Key \<Rightarrow> 'k Key \<Rightarrow> bool"
  underPrefix :: "'k Key \<Rightarrow> 'k Key \<Rightarrow> bool"
  tiesByKey :: bool

text \<open>
  Modelled from the spec: the method \<^verbatim>\<open>Filter\<close> of a filter (package \<^verbatim>\<open>query\<close>):
  ``predicates: value-compare, key-compare, key-prefix''. A filter of another kind
  brings its own predicate.
\<close>

fun Filter_Filter :: "'k::linorder QueryOps \<Rightarrow> 'k Filter \<Rightarrow> 'k Entry \<Rightarrow> bool" where
  "Filter_Filter ko (FilterValueCompare opr v) e = opHolds ko opr (cmp3 (Value e) v)"
| "Filter_Filter ko (FilterValueComparePtr opr v) e = opHolds ko opr (cmp3 (Value e) v)"
| "Filter_Filter ko (FilterKeyCompare opr k) e = opHolds ko opr (cmp3 (Key e) k)"
| "Filter_Filter ko (FilterKeyComparePtr opr k) e = opHolds ko opr (cmp3 (Key e) k)"
| "Filter_Filter ko (FilterKeyPrefix p) e = hasPrefix ko p (Key e)"
| "Filter_Filter ko (FilterKeyPrefixPtr p) e = hasPrefix ko p (Key e)"
| "Filter_Filter ko (FilterOther p) e = p e"

text \<open>
  Modelled from the spec: the offset step of the post-processor (package \<^verbatim>\<open>query\<close>):
  ``Offset (skip count)''.
\<close>

definition NaiveOffset :: "int \<Rightarrow> 'a list \<Rightarrow> 'a list" where
  "NaiveOffset n es = drop (nat n) es"

text \<open>
  Modelled from the spec: the limit step of the post-processor (package \<^verbatim>\<open>query\<close>):
  ``Limit (max results)'', where the cleared limit, zero, is no limit.
\<close>

definition NaiveLimit :: "int \<Rightarrow> 'a list \<Rightarrow> 'a list" where
  "NaiveLimit n es = (if n = 0 then es else take (nat n) es)"

text \<open>
  Modelled from the spec: \<^verbatim>\<open>dsq.NaiveQueryApply\<close> (package \<^verbatim>\<open>query\<close>), which ``applies any
  residual Orders/Filters/Offset/Limit'': the filters in list order, then the orders,
  the offset and the limit.
\<close>

definition NaiveQueryApply :: "'k::linorder QueryOps \<Rightarrow> 'k Query \<Rightarrow> 'k Entry list \<Rightarrow> 'k Entry list" where
  "NaiveQueryApply ko q es =
     NaiveLimit (Limit q) (NaiveOffset (Offset q)
       (NaiveOrder (tiesByKey ko) (Orders q)
          (fold (\<lambda>flt. filter (Filter_Filter ko flt)) (Filters q) es)))"

text \<open>
  Modelled from the spec: membership of a key in a range (package \<^verbatim>\<open>query\<close>): ``optional
  Start/End Keys, half-open''.
\<close>

definition inRange :: "'k::linorder Range \<Rightarrow> 'k Key \<Rightarrow> bool" where
  "inRange r k \<longleftrightarrow> (Start r = None \<or> \<not> k < Start r) \<and> (End r = None \<or> k < End r)"

text \<open>
  Modelled from the spec: the answer to a query of a store that holds the entries \<open>es\<close>
  and enumerates them in this order (the method \<^verbatim>\<open>Query\<close> of a store, which is not part
  of this package): the entries under the prefix and in the range, then filters, orders,
  offset and limit.
\<close>

definition storeQuery :: "'k::linorder QueryOps \<Rightarrow> 'k Query \<Rightarrow> 'k Entry list \<Rightarrow> 'k Entry list" where
  "storeQuery ko q es =
     NaiveQueryApply ko q
       (filter (\<lambda>e. inRange (Range q) (Key e)) (filter (\<lambda>e. underPrefix ko (Prefix q) (Key e)) es))"

text \<open>An entry as the child store holds it, and an entry of the child with its key inverted.\<close>

definition convertEntry :: "('k, 's) Datastore \<Rightarrow> 'k Entry \<Rightarrow> 'k Entry" where
  "convertEntry d e = e\<lparr>Key := ConvertKey (KeyTransform d) (Key e)\<rparr>"

definition invertEntry :: "('k, 's) Datastore \<Rightarrow> 'k Entry \<Rightarrow> 'k Entry" where
  "invertEntry d e = e\<lparr>Key := InvertKey (KeyTransform d) (Key e)\<rparr>"

text \<open>
  Modelled from the spec: the entries that \<^verbatim>\<open>Query\<close> yields when the child store holds the
  entries \<open>ps\<close> (with physical keys), enumerates them in this order and answers without
  an error. The steps are those of \<open>Datastore_Query\<close>: \<open>prepareQuery\<close> (the code above);
  the child's answer to the child query (\<open>storeQuery\<close>, from the spec); the key inversion
  of the iterator (the code above, \<open>Query_Next\<close>); and the post-processor on the naive
  query (\<open>NaiveQueryApply\<close>, from the spec).
\<close>

definition executeSplit ::
  "'k::linorder QueryOps \<Rightarrow> ('k Key \<Rightarrow> 'k Key) \<Rightarrow> ('k, 's) Datastore \<Rightarrow> 'k Query \<Rightarrow> 'k Entry list
     \<Rightarrow> 'k Entry list"
where
  "executeSplit ko Clean d q ps =
     (let nc = prepareQuery Clean d q;
          cqr = storeQuery ko (snd nc) ps;
          qr = map (invertEntry d) cqr
      in NaiveQueryApply ko (fst nc) qr)"

text \<open>
  The functions below tie \<open>executeSplit\<close> to \<open>Datastore_Query\<close>: a child store that
  answers a query as \<open>storeQuery\<close> says, and the two functions of package \<^verbatim>\<open>query\<close> that
  \<^verbatim>\<open>Query\<close> calls, on streams taken as the entries that can be read from them.
\<close>

text \<open>An entry as a result without an error, and the entry of a result.\<close>

definition asResult :: "'k Entry \<Rightarrow> 'k Result" where
  "asResult e = \<lparr>Key = Key e, Value = Value e, Size = Size e, Error = None\<rparr>"

definition asEntry :: "'k Result \<Rightarrow> 'k Entry" where
  "asEntry r = \<lparr>Key = Key r, Value = Value r, Size = Size r\<rparr>"

text \<open>
  Modelled from the spec: a result stream of the child store that yields the results in
  its state one by one (the method \<^verbatim>\<open>NextSync\<close> of \<^verbatim>\<open>dsq.Results\<close>).
\<close>

definition listNextSync :: "'k Result list \<Rightarrow> ('k Result \<times> bool) \<times> 'k Result list" where
  "listNextSync s =
     (case s of
        [] \<Rightarrow> ((\<lparr>Key = None, Value = [], Size = 0, Error = None\<rparr>, False), [])
      | r # rs \<Rightarrow> ((r, True), rs))"

definition listResults :: "('k, 'k Result list) dsq_Results" where
  "listResults = \<lparr>results_NextSync = listNextSync, results_Close = (\<lambda>s. (None, s))\<rparr>"

text \<open>
  Modelled from the spec: a child store that holds the entries \<open>es\<close> and enumerates them
  in this order, whose \<^verbatim>\<open>Query\<close> answers as \<open>storeQuery\<close> says, without an error; its
  other methods do nothing.
\<close>

definition listStore :: "'k::linorder QueryOps \<Rightarrow> 'k Entry list \<Rightarrow> ('k, 'k Result list) ds_Datastore" where
  "listStore ko es = \<lparr>
     ds_Put = (\<lambda>ctx k v s. (None, s)),
     ds_Sync = (\<lambda>ctx k s. (None, s)),
     ds_Get = (\<lambda>ctx k s. (([], None), s)),
     ds_Has = (\<lambda>ctx k s. ((False, None), s)),
     ds_GetSize = (\<lambda>ctx k s. ((0, None), s)),
     ds_Delete = (\<lambda>ctx k s. (None, s)),
     ds_Query = (\<lambda>ctx q s. ((Some listResults, None), map asResult (storeQuery ko q es))),
     ds_Batching = None\<rparr>"

text \<open>
  Modelled from the spec: \<^verbatim>\<open>dsq.ResultsFromIterator\<close>, as the entries that the iterator
  yields from a state of the child side (at most \<open>n\<close> of them).
\<close>

definition readEntries ::
  "nat \<Rightarrow> 'k Query \<Rightarrow> ('k, 's) dsq_Iterator \<Rightarrow> 's \<Rightarrow> 'k Entry list" where
  "readEntries n q it s = map asEntry (drain n (Next it) s)"

text \<open>
  Modelled from the spec: \<^verbatim>\<open>dsq.NaiveQueryApply\<close> on such a stream: the post-processor on
  the entries read.
\<close>

definition naiveOnEntries ::
  "'k::linorder QueryOps \<Rightarrow> 'k Query \<Rightarrow> ('s \<Rightarrow> 'k Entry list) \<Rightarrow> 's \<Rightarrow> 'k Entry list" where
  "naiveOnEntries ko q r s = NaiveQueryApply ko q (r s)"

text \<open>
  The entries that can be read (at most \<open>n\<close> of them) from the stream that \<^verbatim>\<open>Query\<close>
  returns, with the two functions of package \<^verbatim>\<open>query\<close> as modelled above; none when
  \<^verbatim>\<open>Query\<close> returns no stream.
\<close>

definition Query_entries ::
  "'k::linorder QueryOps \<Rightarrow> nat \<Rightarrow> ('k Key \<Rightarrow> 'k Key) \<Rightarrow> ('k, 's) Datastore \<Rightarrow> Context
     \<Rightarrow> 'k Query \<Rightarrow> 's \<Rightarrow> 'k Entry list"
where
  "Query_entries ko n Clean d ctx q s =
     (case Datastore_Query (readEntries n) (naiveOnEntries ko) Clean d ctx q s of
        ((Some r, err), s') \<Rightarrow> r s'
      | ((None, err), s') \<Rightarrow> [])"

section \<open>Notions used in the statements\<close>

text \<open>
  A filter is of a recognized kind when the type switch of the loop over the filters
  names its dynamic type.
\<close>

fun knownFilter :: "'k Filter \<Rightarrow> bool" where
  "knownFilter (FilterOther p) = False"
| "knownFilter flt = True"

text \<open>
  A filter with its key operand converted: the key of a key-compare filter, the prefix
  of a key-prefix filter; every other filter as it is.
\<close>

fun rewriteFilter :: "('k Key \<Rightarrow> 'k Key) \<Rightarrow> 'k Filter \<Rightarrow> 'k Filter" where
  "rewriteFilter cv (FilterKeyCompare opr k) = FilterKeyCompare opr (cv k)"
| "rewriteFilter cv (FilterKeyComparePtr opr k) = FilterKeyComparePtr opr (cv k)"
| "rewriteFilter cv (FilterKeyPrefix p) = FilterKeyPrefix (cv p)"
| "rewriteFilter cv (FilterKeyPrefixPtr p) = FilterKeyPrefixPtr (cv p)"
| "rewriteFilter cv flt = flt"

text \<open>
  An order forces fallback when the scan reaches it (all orders before it are by value)
  and it is of no recognized kind, or by key under a transform that does not preserve
  the order.
\<close>

definition ordersForceFallback :: "bool \<Rightarrow> 'k Order list \<Rightarrow> bool" where
  "ordersForceFallback op os \<longleftrightarrow>
     (\<exists>i<length os. (\<forall>j<i. orderCase (os ! j) = CaseByValue) \<and>
        (orderCase (os ! i) = CaseNone \<or> (orderCase (os ! i) = CaseByKey \<and> \<not> op)))"

text \<open>The way the loop over the orders ends, as a value.\<close>

datatype Scan = AllDelegated | CutAt nat | Punt

fun scanOrders :: "bool \<Rightarrow> nat \<Rightarrow> 'k Order list \<Rightarrow> Scan" where
  "scanOrders op i [] = AllDelegated"
| "scanOrders op i (ord # os) =
     (case orderCase ord of
        CaseByValue \<Rightarrow> scanOrders op (i + 1) os
      | CaseByKey \<Rightarrow> if op then CutAt (i + 1) else Punt
      | CaseNone \<Rightarrow> Punt)"

text \<open>The key inversion that the iterator of \<^verbatim>\<open>Query\<close> applies to one result.\<close>

definition invertResult :: "('k, 's) Datastore \<Rightarrow> 'k Result \<Rightarrow> 'k Result" where
  "invertResult d r =
     (if Error r = None then r\<lparr>Key := InvertKey (KeyTransform d) (Key r)\<rparr> else r)"

text \<open>
  The conversion \<open>cv\<close> keeps what a filter on keys says of the key \<open>k\<close>: the comparison
  of \<open>k\<close> with the operand of a key-compare filter, and whether a key-prefix filter
  accepts \<open>k\<close>. A filter of another kind does not read the key.
\<close>

fun keepsFilter ::
  "'k::linorder QueryOps \<Rightarrow> ('k Key \<Rightarrow> 'k Key) \<Rightarrow> 'k Key \<Rightarrow> 'k Filter \<Rightarrow> bool" where
  "keepsFilter ko cv k (FilterKeyCompare opr x) = (cmp3 (cv k) (cv x) = cmp3 k x)"
| "keepsFilter ko cv k (FilterKeyComparePtr opr x) = (cmp3 (cv k) (cv x) = cmp3 k x)"
| "keepsFilter ko cv k (FilterKeyPrefix p) = (hasPrefix ko (cv p) (cv k) = hasPrefix ko p k)"
| "keepsFilter ko cv k (FilterKeyPrefixPtr p) = (hasPrefix ko (cv p) (cv k) = hasPrefix ko p k)"
| "keepsFilter ko cv k flt = True"

text \<open>
  The post-processor as a function of the four fields it reads, with the filters as one
  predicate.
\<close>

definition pipe ::
  "'k::linorder QueryOps \<Rightarrow> 'k Order list \<Rightarrow> 'k Filter list \<Rightarrow> int \<Rightarrow> int \<Rightarrow> 'k Entry list
     \<Rightarrow> 'k Entry list"
where
  "pipe ko os fs n m es =
     NaiveLimit m (NaiveOffset n
       (NaiveOrder (tiesByKey ko) os (filter (\<lambda>e. \<forall>x\<in>set fs. Filter_Filter ko x e) es)))"

text \<open>A strict weak order: asymmetric, and not being below is transitive.\<close>

definition strictWeak :: "('a \<Rightarrow> 'a \<Rightarrow> bool) \<Rightarrow> bool" where
  "strictWeak lt \<longleftrightarrow> (\<forall>a b. lt a b \<longrightarrow> \<not> lt b a) \<and>
     (\<forall>a b c. \<not> lt a b \<and> \<not> lt b c \<longrightarrow> \<not> lt a c)"

section \<open>Example inputs\<close>

text \<open>
  Keys are strings here. The first transform prepends \<^verbatim>\<open>/ns\<close> and has the dynamic type
  \<^verbatim>\<open>PrefixTransform\<close>; the second reverses the key and is of another type.
\<close>

definition nsTransform :: "string KeyTransform" where
  "nsTransform = \<lparr>ConvertKey = map_option (append ''/ns''), InvertKey = map_option (drop 3),
     DynType = PrefixTransform\<rparr>"

definition revTransform :: "string KeyTransform" where
  "revTransform = \<lparr>ConvertKey = map_option rev, InvertKey = map_option rev,
     DynType = OtherTransform\<rparr>"

text \<open>
  A child store that records the calls it receives and serves a fixed list of results
  to a query.
\<close>

datatype Call =
    PutCall "string Key" bytes
  | SyncCall "string Key"
  | GetCall "string Key"
  | HasCall "string Key"
  | GetSizeCall "string Key"
  | DeleteCall "string Key"
  | QueryCall
  | BatchCall
  | BatchPutCall "string Key" bytes
  | BatchDeleteCall "string Key"
  | BatchCommitCall

record MockState =
  calls :: "Call list"
  stream :: "string Result list"

definition zeroResult :: "string Result" where
  "zeroResult = \<lparr>Key = None, Value = [], Size = 0, Error = None\<rparr>"

definition logCall :: "Call \<Rightarrow> MockState \<Rightarrow> MockState" where
  "logCall c s = s\<lparr>calls := calls s @ [c]\<rparr>"

definition mockNextSync :: "MockState \<Rightarrow> (string Result \<times> bool) \<times> MockState" where
  "mockNextSync s =
     (case stream s of
        [] \<Rightarrow> ((zeroResult, False), s)
      | r # rs \<Rightarrow> ((r, True), s\<lparr>stream := rs\<rparr>))"

definition mockResults :: "(string, MockState) dsq_Results" where
  "mockResults = \<lparr>results_NextSync = mockNextSync, results_Close = (\<lambda>s. (None, s))\<rparr>"

definition mockBatch :: "(string, MockState) ds_Batch" where
  "mockBatch = \<lparr>
     batch_Put = (\<lambda>ctx k v s. (None, logCall (BatchPutCall k v) s)),
     batch_Delete = (\<lambda>ctx k s. (None, logCall (BatchDeleteCall k) s)),
     batch_Commit = (\<lambda>ctx s. (None, logCall BatchCommitCall s))\<rparr>"

definition mockStore :: "bool \<Rightarrow> (string, MockState) ds_Datastore" where
  "mockStore batching = \<lparr>
     ds_Put = (\<lambda>ctx k v s. (None, logCall (PutCall k v) s)),
     ds_Sync = (\<lambda>ctx k s. (None, logCall (SyncCall k) s)),
     ds_Get = (\<lambda>ctx k s. (([], None), logCall (GetCall k) s)),
     ds_Has = (\<lambda>ctx k s. ((False, None), logCall (HasCall k) s)),
     ds_GetSize = (\<lambda>ctx k s. ((0, None), logCall (GetSizeCall k) s)),
     ds_Delete = (\<lambda>ctx k s. (None, logCall (DeleteCall k) s)),
     ds_Query = (\<lambda>ctx q s. ((Some mockResults, None), logCall QueryCall s)),
     ds_Batching =
       (if batching then Some (\<lambda>ctx s. ((Some mockBatch, None), logCall BatchCall s))
        else None)\<rparr>"

definition nsStore :: "(string, MockState) Datastore" where
  "nsStore = \<lparr>child = mockStore True, KeyTransform = nsTransform\<rparr>"

definition revStore :: "(string, MockState) Datastore" where
  "revStore = \<lparr>child = mockStore False, KeyTransform = revTransform\<rparr>"

text \<open>A store with one array of orders and one of filters, and a query on them.\<close>

definition exampleHeap :: "string Heap" where
  "exampleHeap = \<lparr>nextAddr = 2,
     orderArrays = [0 \<mapsto> [OrderByValue, OrderByKey]],
     filterArrays = [1 \<mapsto> [FilterKeyPrefix (Some ''/a''), FilterValueCompare ''=='' [1]]]\<rparr>"

definition exampleQueryS :: "string QueryS" where
  "exampleQueryS = \<lparr>PrefixS = Some ''/'', RangeS = zeroRange, OrdersS = Slice 0 0 2,
     FiltersS = Slice 1 0 2, OffsetS = 0, LimitS = 0\<rparr>"

text \<open>A filter and an order of kinds that the type switches do not name.\<close>

definition nonEmptyValue :: "string Filter" where
  "nonEmptyValue = FilterOther (\<lambda>e. Value e \<noteq> [])"

definition bySize :: "string Order" where
  "bySize = OrderOther (\<lambda>a b. Size a - Size b)"

text \<open>
  Operators and prefixes on string keys: the six comparison operators, and a key lies
  under a prefix when it starts with it (every key lies under the \<^verbatim>\<open>nil\<close> prefix). Ties
  are broken by key in \<open>strOps\<close>, and kept in the order of the stream in \<open>stableOps\<close>.
\<close>

fun strOpHolds :: "Op \<Rightarrow> int \<Rightarrow> bool" where
  "strOpHolds opr c =
     (if opr = ''=='' then c = 0 else if opr = ''!='' then c \<noteq> 0
      else if opr = ''>'' then 0 < c else if opr = ''>='' then 0 \<le> c
      else if opr = ''<'' then c < 0 else if opr = ''<='' then c \<le> 0 else False)"

fun strHasPrefix :: "string Key \<Rightarrow> string Key \<Rightarrow> bool" where
  "strHasPrefix None k = True"
| "strHasPrefix (Some p) None = False"
| "strHasPrefix (Some p) (Some k) = (take (length p) k = p)"

definition strOps :: "string QueryOps" where
  "strOps = \<lparr>opHolds = strOpHolds, hasPrefix = strHasPrefix, underPrefix = strHasPrefix,
     tiesByKey = True\<rparr>"

definition stableOps :: "string QueryOps" where
  "stableOps = strOps\<lparr>tiesByKey := False\<rparr>"

text \<open>Three entries, and a store that prepends \<^verbatim>\<open>/ns\<close> with a transform of its own type.\<close>

definition entryA :: "string Entry" where
  "entryA = \<lparr>Key = Some ''/a'', Value = [1], Size = 1\<rparr>"

definition entryB :: "string Entry" where
  "entryB = \<lparr>Key = Some ''/b'', Value = [2], Size = 1\<rparr>"

definition entryAB :: "string Entry" where
  "entryAB = \<lparr>Key = Some ''/ab'', Value = [3], Size = 1\<rparr>"

definition plainNsStore :: "(string, MockState) Datastore" where
  "plainNsStore =
     \<lparr>child = mockStore False, KeyTransform = nsTransform\<lparr>DynType := OtherTransform\<rparr>\<rparr>"

text \<open>
  A store with the transform \<open>t\<close> over a child store that holds the entries \<open>ps\<close>,
  enumerates them in this order and answers queries as \<open>storeQuery\<close> says.
\<close>

definition onList ::
  "string QueryOps \<Rightarrow> string KeyTransform \<Rightarrow> string Entry list
     \<Rightarrow> (string, string Result list) Datastore" where
  "onList ko t ps = \<lparr>child = listStore ko ps, KeyTransform = t\<rparr>"

section \<open>Properties of prepareQuery\<close>

subsection \<open>The two loops\<close>

lemma ordersLoop_scan:
  "ordersLoop op q i os nc =
     (case scanOrders op i os of
        AllDelegated \<Rightarrow> nc
      | CutAt n \<Rightarrow> (fst nc, (snd nc)\<lparr>Orders := take n (Orders (snd nc))\<rparr>)
      | Punt \<Rightarrow> puntOrders q nc)"
  by (induction os arbitrary: i) (auto split: OrderCase.splits)

lemma scanOrders_Punt_iff:
  "scanOrders op i os = Punt \<longleftrightarrow> ordersForceFallback op os"
proof (induction os arbitrary: i)
  case Nil
  show ?case by (simp add: ordersForceFallback_def)
next
  case (Cons ord os)
  show ?case
  proof (cases "orderCase ord")
    case CaseByValue
    have "ordersForceFallback op (ord # os) \<longleftrightarrow> ordersForceFallback op os"
    proof
      assume "ordersForceFallback op (ord # os)"
      then obtain n where n: "n < length (ord # os)"
        "\<forall>j<n. orderCase ((ord # os) ! j) = CaseByValue"
        "orderCase ((ord # os) ! n) = CaseNone \<or> (orderCase ((ord # os) ! n) = CaseByKey \<and> \<not> op)"
        unfolding ordersForceFallback_def by blast
      from n(3) CaseByValue have "n \<noteq> 0" by (cases n) auto
      then obtain m where m: "n = Suc m" by (cases n) auto
      have "\<forall>j<m. orderCase (os ! j) = CaseByValue"
        using n(2) m by (metis Suc_less_eq nth_Cons_Suc)
      with n m show "ordersForceFallback op os"
        unfolding ordersForceFallback_def by auto
    next
      assume "ordersForceFallback op os"
      then obtain m where m: "m < length os" "\<forall>j<m. orderCase (os ! j) = CaseByValue"
        "orderCase (os ! m) = CaseNone \<or> (orderCase (os ! m) = CaseByKey \<and> \<not> op)"
        unfolding ordersForceFallback_def by blast
      have "\<forall>j<Suc m. orderCase ((ord # os) ! j) = CaseByValue"
        using m(2) CaseByValue by (auto simp: nth_Cons split: nat.splits)
      with m show "ordersForceFallback op (ord # os)"
        unfolding ordersForceFallback_def by (intro exI[of _ "Suc m"]) auto
    qed
    with CaseByValue Cons show ?thesis by simp
  next
    case CaseByKey
    have "ordersForceFallback op (ord # os) \<longleftrightarrow> \<not> op"
    proof
      assume "ordersForceFallback op (ord # os)"
      then obtain n where n: "n < length (ord # os)"
        "\<forall>j<n. orderCase ((ord # os) ! j) = CaseByValue"
        "orderCase ((ord # os) ! n) = CaseNone \<or> (orderCase ((ord # os) ! n) = CaseByKey \<and> \<not> op)"
        unfolding ordersForceFallback_def by blast
      have "n = 0" using n(2) CaseByKey by (cases n) auto
      with n(3) CaseByKey show "\<not> op" by auto
    next
      assume "\<not> op"
      with CaseByKey show "ordersForceFallback op (ord # os)"
        unfolding ordersForceFallback_def by (intro exI[of _ 0]) auto
    qed
    with CaseByKey show ?thesis by simp
  next
    case CaseNone
    then have "ordersForceFallback op (ord # os)"
      unfolding ordersForceFallback_def by (intro exI[of _ 0]) auto
    with CaseNone show ?thesis by simp
  qed
qed

lemma filtersLoop_known:
  "\<forall>x\<in>set fs. knownFilter x \<Longrightarrow> Filters (snd nc) = pre @ fs \<Longrightarrow> length pre = i \<Longrightarrow>
   filtersLoop cv q i fs nc = (fst nc, (snd nc)\<lparr>Filters := pre @ map (rewriteFilter cv) fs\<rparr>)"
proof (induction fs arbitrary: i nc pre)
  case Nil
  then show ?case by (cases nc) auto
next
  case (Cons x fs)
  have step: "\<And>g. Filters (snd (setFilter i g nc)) = (pre @ [g]) @ fs"
    using Cons.prems by (simp add: setFilter_def list_update_append)
  show ?case
  proof (cases x)
    case (FilterOther p)
    with Cons.prems show ?thesis by simp
  qed (use Cons.prems Cons.IH[where nc=nc and pre="pre @ [x]" and i="i + 1"]
          Cons.IH[OF _ step, where i="i + 1"] in \<open>auto simp: setFilter_def\<close>)
qed

lemma filtersLoop_unknown:
  "\<exists>x\<in>set fs. \<not> knownFilter x \<Longrightarrow> filtersLoop cv q i fs nc = puntFilters q nc"
proof (induction fs arbitrary: i nc)
  case Nil
  then show ?case by simp
next
  case (Cons x fs)
  show ?case
  proof (cases x)
    case (FilterOther p)
    then show ?thesis by simp
  qed (use Cons in \<open>auto simp: setFilter_def puntFilters_def\<close>)
qed

lemma ordersLoop_Filters [simp]:
  "Filters (snd (ordersLoop op q i os nc)) = Filters (snd nc)"
  by (simp add: ordersLoop_scan puntOrders_def split: Scan.splits)

lemma convertRange_eq: "convertRange cv c = c\<lparr>Range := zeroRange\<rparr>"
  by (simp add: convertRange_def zeroRange_def Let_def)

lemma prepareQuery_loops:
  "prepareQuery Clean d q =
     filtersLoop (ConvertKey (KeyTransform d)) q 0 (Filters q)
       (ordersLoop (orderPreserving (DynType (KeyTransform d))) q 0 (Orders q)
          (zeroQuery, q\<lparr>Prefix := ConvertKey (KeyTransform d) (Clean (Prefix q)),
                         Range := zeroRange\<rparr>))"
  by (simp add: prepareQuery_def Let_def convertRange_eq)

lemma prepareQuery_known:
  assumes "\<forall>x\<in>set (Filters q). knownFilter x"
  shows "prepareQuery Clean d q =
     (let sc = scanOrders (orderPreserving (DynType (KeyTransform d))) 0 (Orders q)
      in (\<lparr>Prefix = None, Range = zeroRange,
           Orders = (if sc = Punt then Orders q else []),
           Filters = [],
           Offset = (if sc = Punt then Offset q else 0),
           Limit = (if sc = Punt then Limit q else 0)\<rparr>,
          \<lparr>Prefix = ConvertKey (KeyTransform d) (Clean (Prefix q)), Range = zeroRange,
           Orders = (case sc of AllDelegated \<Rightarrow> Orders q | CutAt n \<Rightarrow> take n (Orders q)
                     | Punt \<Rightarrow> []),
           Filters = map (rewriteFilter (ConvertKey (KeyTransform d))) (Filters q),
           Offset = (if sc = Punt then 0 else Offset q),
           Limit = (if sc = Punt then 0 else Limit q)\<rparr>))"
  unfolding prepareQuery_loops
  by (subst filtersLoop_known[where pre="[]"])
     (use assms in \<open>simp_all add: ordersLoop_scan puntOrders_def zeroQuery_def Let_def
        split: Scan.splits\<close>)

lemma prepareQuery_unknown:
  assumes "\<exists>x\<in>set (Filters q). \<not> knownFilter x"
  shows "prepareQuery Clean d q =
     (let sc = scanOrders (orderPreserving (DynType (KeyTransform d))) 0 (Orders q)
      in (\<lparr>Prefix = None, Range = zeroRange,
           Orders = (if sc = Punt then Orders q else []),
           Filters = Filters q,
           Offset = Offset q,
           Limit = Limit q\<rparr>,
          \<lparr>Prefix = ConvertKey (KeyTransform d) (Clean (Prefix q)), Range = zeroRange,
           Orders = (case sc of AllDelegated \<Rightarrow> Orders q | CutAt n \<Rightarrow> take n (Orders q)
                     | Punt \<Rightarrow> []),
           Filters = [],
           Offset = 0,
           Limit = 0\<rparr>))"
  unfolding prepareQuery_loops filtersLoop_unknown[OF assms]
  by (simp add: puntFilters_def ordersLoop_scan puntOrders_def zeroQuery_def Let_def
        split: Scan.splits)


lemma scanOrders_CutAt:
  "i < length os \<Longrightarrow> orderCase (os ! i) = CaseByKey \<Longrightarrow>
   \<forall>j<i. orderCase (os ! j) = CaseByValue \<Longrightarrow> op \<Longrightarrow>
   scanOrders op k os = CutAt (k + i + 1)"
proof (induction os arbitrary: i k)
  case Nil
  then show ?case by simp
next
  case (Cons ord os)
  show ?case
  proof (cases i)
    case 0
    with Cons.prems show ?thesis by simp
  next
    case (Suc m)
    have hd: "orderCase ord = CaseByValue" using Cons.prems(3) Suc by auto
    have "\<forall>j<m. orderCase (os ! j) = CaseByValue"
      using Cons.prems(3) Suc by (metis Suc_less_eq nth_Cons_Suc)
    with Cons.prems Suc have "scanOrders op (k + 1) os = CutAt (k + 1 + m + 1)"
      by (intro Cons.IH) auto
    with hd Suc show ?thesis by simp
  qed
qed

lemma scanOrders_AllDelegated:
  "scanOrders op k os = AllDelegated \<longleftrightarrow> (\<forall>x\<in>set os. orderCase x = CaseByValue)"
  by (induction os arbitrary: k) (auto split: OrderCase.splits)

lemma scanOrders_CutAt_bound:
  "scanOrders op k os = CutAt n \<Longrightarrow> k < n \<and> n \<le> k + length os"
  by (induction os arbitrary: k) (fastforce split: OrderCase.splits if_splits)+


lemma scanOrders_not_preserving:
  "\<not> op \<Longrightarrow> \<exists>x\<in>set os. orderCase x \<noteq> CaseByValue \<Longrightarrow> scanOrders op k os = Punt"
  by (induction os arbitrary: k) (auto split: OrderCase.splits)

lemma prepareQuery_Range_zero:
  "Range (fst (prepareQuery Clean d q)) = zeroRange \<and>
   Range (snd (prepareQuery Clean d q)) = zeroRange"
proof (cases "\<forall>x\<in>set (Filters q). knownFilter x")
  case True
  then show ?thesis by (simp add: prepareQuery_known Let_def)
next
  case False
  then have "\<exists>x\<in>set (Filters q). \<not> knownFilter x" by simp
  then show ?thesis by (simp add: prepareQuery_unknown Let_def)
qed

subsection \<open>The range\<close>

text \<open>
  Claim C2: the naive query's range is the zero range, and when the caller's query has a
  bound, the bound is converted and handed to the child query.

  The first half holds for every query (\<open>prepareQuery_Range_zero\<close>). The second half
  does not: the range of \<^verbatim>\<open>child\<close> is set to the zero range before the two tests for a
  bound, so both tests fail and the child query has no range either. The theorem
  evaluates \<open>prepareQuery\<close> on a query with both bounds.
\<close>

theorem prepareQuery_clears_child_Range:
  "Range (snd (prepareQuery id nsStore
      (zeroQuery\<lparr>Range := \<lparr>Start = Some ''/a'', End = Some ''/c''\<rparr>\<rparr>))) =
   \<lparr>Start = None, End = None\<rparr>"
  by (simp add: prepareQuery_def convertRange_def zeroRange_def zeroQuery_def Let_def)

subsection \<open>Orders\<close>

text \<open>
  Claim C3 as it is written fails twice under \<^verbatim>\<open>PrefixTransform\<close>. An order of an
  unrecognized kind before the order by key punts all orders to the naive query; and an
  unrecognized filter puts offset and limit on the naive query although the orders are
  delegated.
\<close>

theorem order_gating_counterexample:
  "orderPreserving (DynType (KeyTransform nsStore)) \<and>
   Orders (fst (prepareQuery id nsStore (zeroQuery\<lparr>Orders := [bySize, OrderByKey]\<rparr>))) \<noteq> [] \<and>
   Orders (snd (prepareQuery id nsStore (zeroQuery\<lparr>Orders := [bySize, OrderByKey]\<rparr>))) \<noteq>
     [bySize, OrderByKey] \<and>
   Limit (fst (prepareQuery id nsStore
     (zeroQuery\<lparr>Orders := [OrderByKey], Filters := [nonEmptyValue], Limit := 5\<rparr>))) \<noteq> 0"
  by (simp add: prepareQuery_def convertRange_def zeroRange_def zeroQuery_def Let_def
      nsStore_def nsTransform_def bySize_def nonEmptyValue_def puntOrders_def puntFilters_def)

text \<open>
  Claim C3, amended: let the query have an order by key at index \<open>i\<close>. Under
  \<^verbatim>\<open>PrefixTransform\<close>, if every order before index \<open>i\<close> is by value, the child's orders
  are the caller's orders up to index \<open>i\<close> inclusive and the naive query has no orders;
  if moreover every filter is of a recognized kind, the naive query has offset and limit
  zero. Under a transform of another type, the naive query has all the caller's orders,
  and orders, offset and limit of the child query are cleared.
\<close>

theorem order_gating:
  assumes "i < length (Orders q)" and "orderCase (Orders q ! i) = CaseByKey"
  shows "(orderPreserving (DynType (KeyTransform d)) \<and>
            (\<forall>j<i. orderCase (Orders q ! j) = CaseByValue) \<longrightarrow>
          Orders (snd (prepareQuery Clean d q)) = take (i + 1) (Orders q) \<and>
          Orders (fst (prepareQuery Clean d q)) = [] \<and>
          ((\<forall>x\<in>set (Filters q). knownFilter x) \<longrightarrow>
             Offset (fst (prepareQuery Clean d q)) = 0 \<and>
             Limit (fst (prepareQuery Clean d q)) = 0)) \<and>
         (\<not> orderPreserving (DynType (KeyTransform d)) \<longrightarrow>
          Orders (fst (prepareQuery Clean d q)) = Orders q \<and>
          Orders (snd (prepareQuery Clean d q)) = [] \<and>
          Offset (snd (prepareQuery Clean d q)) = 0 \<and>
          Limit (snd (prepareQuery Clean d q)) = 0)"
proof -
  let ?op = "orderPreserving (DynType (KeyTransform d))"
  let ?sc = "scanOrders ?op 0 (Orders q)"
  have cut: "?sc = CutAt (i + 1)"
    if "?op" "\<forall>j<i. orderCase (Orders q ! j) = CaseByValue"
    using scanOrders_CutAt[OF assms that(2) that(1), of 0] by simp
  have "\<exists>x\<in>set (Orders q). orderCase x \<noteq> CaseByValue"
    using assms by (metis OrderCase.distinct(1) nth_mem)
  then have punt: "?sc = Punt" if "\<not> ?op"
    using that by (simp add: scanOrders_not_preserving)
  show ?thesis
  proof (cases "\<forall>x\<in>set (Filters q). knownFilter x")
    case True
    then show ?thesis using cut punt
      by (auto simp add: prepareQuery_known Let_def)
  next
    case False
    then have "\<exists>x\<in>set (Filters q). \<not> knownFilter x" by simp
    then show ?thesis using cut punt
      by (auto simp add: prepareQuery_unknown Let_def)
  qed
qed

theorem order_gating_witness:
  "(let nc = prepareQuery id nsStore
      (zeroQuery\<lparr>Orders := [OrderByValue, OrderByKeyDescending, bySize],
         Filters := [FilterKeyPrefix (Some ''/a'')], Offset := 2, Limit := 5\<rparr>)
    in Orders (snd nc) = [OrderByValue, OrderByKeyDescending] \<and> Orders (fst nc) = [] \<and>
       Offset (fst nc) = 0 \<and> Limit (fst nc) = 0) \<and>
   (let nc = prepareQuery id revStore
      (zeroQuery\<lparr>Orders := [OrderByValue, OrderByKeyDescending, bySize],
         Filters := [FilterKeyPrefix (Some ''/a'')], Offset := 2, Limit := 5\<rparr>)
    in Orders (fst nc) = [OrderByValue, OrderByKeyDescending, bySize] \<and> Orders (snd nc) = [] \<and>
       Offset (snd nc) = 0 \<and> Limit (snd nc) = 0)"
proof -
  let ?os = "[OrderByValue, OrderByKeyDescending, bySize] :: string Order list"
  let ?q = "zeroQuery\<lparr>Orders := ?os,
         Filters := [FilterKeyPrefix (Some ''/a'')], Offset := 2, Limit := 5\<rparr> :: string Query"
  have q: "Orders ?q = ?os" "Filters ?q = [FilterKeyPrefix (Some ''/a'')]"
    by (simp_all add: zeroQuery_def)
  have 1: "1 < length (Orders ?q)" by (simp add: q)
  have 2: "orderCase (Orders ?q ! 1) = CaseByKey" by (simp add: q)
  have 3: "\<forall>j<1. orderCase (?os ! j) = CaseByValue" by simp
  have 4: "\<forall>x\<in>set [FilterKeyPrefix (Some ''/a'')]. knownFilter x" by simp
  have 5: "orderPreserving (DynType (KeyTransform nsStore))"
    by (simp add: nsStore_def nsTransform_def)
  have 6: "\<not> orderPreserving (DynType (KeyTransform revStore))"
    by (simp add: revStore_def revTransform_def)
  show ?thesis
    using order_gating[OF 1 2, of nsStore id] order_gating[OF 1 2, of revStore id] 3 4 5 6
    unfolding q Let_def by simp
qed

subsection \<open>Fallback\<close>

text \<open>
  Claim C4: when an order forces fallback, the naive query gets all the caller's orders
  and the child query none; when a filter forces fallback, the naive query gets all the
  caller's filters and the child query none; in both cases offset and limit are zero on
  the child query and the caller's on the naive query.
\<close>

theorem fallback_complete:
  "(ordersForceFallback (orderPreserving (DynType (KeyTransform d))) (Orders q) \<longrightarrow>
      Orders (fst (prepareQuery Clean d q)) = Orders q \<and>
      Orders (snd (prepareQuery Clean d q)) = [] \<and>
      Offset (snd (prepareQuery Clean d q)) = 0 \<and>
      Limit (snd (prepareQuery Clean d q)) = 0 \<and>
      Offset (fst (prepareQuery Clean d q)) = Offset q \<and>
      Limit (fst (prepareQuery Clean d q)) = Limit q) \<and>
   ((\<exists>x\<in>set (Filters q). \<not> knownFilter x) \<longrightarrow>
      Filters (fst (prepareQuery Clean d q)) = Filters q \<and>
      Filters (snd (prepareQuery Clean d q)) = [] \<and>
      Offset (snd (prepareQuery Clean d q)) = 0 \<and>
      Limit (snd (prepareQuery Clean d q)) = 0 \<and>
      Offset (fst (prepareQuery Clean d q)) = Offset q \<and>
      Limit (fst (prepareQuery Clean d q)) = Limit q)"
proof -
  let ?sc = "scanOrders (orderPreserving (DynType (KeyTransform d))) 0 (Orders q)"
  have p: "ordersForceFallback (orderPreserving (DynType (KeyTransform d))) (Orders q)
      \<longleftrightarrow> ?sc = Punt"
    by (simp add: scanOrders_Punt_iff)
  show ?thesis
  proof (cases "\<forall>x\<in>set (Filters q). knownFilter x")
    case True
    then show ?thesis
      unfolding p by (simp add: prepareQuery_known Let_def)
  next
    case False
    then have "\<exists>x\<in>set (Filters q). \<not> knownFilter x" by simp
    then show ?thesis
      unfolding p by (simp add: prepareQuery_unknown Let_def)
  qed
qed

theorem fallback_complete_witness:
  "ordersForceFallback (orderPreserving (DynType (KeyTransform revStore)))
     [OrderByValue, OrderByKey :: string Order] \<and>
   (\<exists>x\<in>set [FilterValueCompare ''=='' [1], nonEmptyValue]. \<not> knownFilter x) \<and>
   (let nc = prepareQuery id revStore
      (zeroQuery\<lparr>Orders := [OrderByValue, OrderByKey],
         Filters := [FilterValueCompare ''=='' [1], nonEmptyValue], Offset := 2, Limit := 5\<rparr>)
    in Orders (fst nc) = [OrderByValue, OrderByKey] \<and> Orders (snd nc) = [] \<and>
       Filters (fst nc) = [FilterValueCompare ''=='' [1], nonEmptyValue] \<and> Filters (snd nc) = [] \<and>
       Offset (fst nc) = 2 \<and> Limit (fst nc) = 5 \<and> Offset (snd nc) = 0 \<and> Limit (snd nc) = 0)"
proof -
  let ?q = "zeroQuery\<lparr>Orders := [OrderByValue, OrderByKey],
         Filters := [FilterValueCompare ''=='' [1], nonEmptyValue], Offset := 2, Limit := 5\<rparr>
        :: string Query"
  have 1: "ordersForceFallback (orderPreserving (DynType (KeyTransform revStore)))
     [OrderByValue, OrderByKey :: string Order]"
    unfolding scanOrders_Punt_iff[symmetric, where i=0]
    by (simp add: revStore_def revTransform_def)
  have 2: "\<exists>x\<in>set [FilterValueCompare ''=='' [1], nonEmptyValue]. \<not> knownFilter x"
    by (simp add: nonEmptyValue_def)
  have q: "Orders ?q = [OrderByValue, OrderByKey]"
    "Filters ?q = [FilterValueCompare ''=='' [1], nonEmptyValue]" "Offset ?q = 2" "Limit ?q = 5"
    by (simp_all add: zeroQuery_def)
  show ?thesis
    using fallback_complete[of revStore ?q id] 1 2 unfolding q Let_def by blast
qed

subsection \<open>Filters\<close>

text \<open>
  Claim C5: when every filter of the query is of a recognized kind, the child query has
  as many filters as the caller's, and at each index a key-prefix filter has its prefix
  converted, a key-compare filter has its key converted and its operator kept, and a
  value-compare filter is unchanged. The value and the pointer form are kept as well.
\<close>

theorem filters_rewritten:
  assumes "\<forall>x\<in>set (Filters q). knownFilter x"
  shows "length (Filters (snd (prepareQuery Clean d q))) = length (Filters q) \<and>
    (\<forall>i<length (Filters q).
       (\<forall>p. Filters q ! i = FilterKeyPrefix p \<longrightarrow>
          Filters (snd (prepareQuery Clean d q)) ! i =
            FilterKeyPrefix (ConvertKey (KeyTransform d) p)) \<and>
       (\<forall>p. Filters q ! i = FilterKeyPrefixPtr p \<longrightarrow>
          Filters (snd (prepareQuery Clean d q)) ! i =
            FilterKeyPrefixPtr (ConvertKey (KeyTransform d) p)) \<and>
       (\<forall>opr k. Filters q ! i = FilterKeyCompare opr k \<longrightarrow>
          Filters (snd (prepareQuery Clean d q)) ! i =
            FilterKeyCompare opr (ConvertKey (KeyTransform d) k)) \<and>
       (\<forall>opr k. Filters q ! i = FilterKeyComparePtr opr k \<longrightarrow>
          Filters (snd (prepareQuery Clean d q)) ! i =
            FilterKeyComparePtr opr (ConvertKey (KeyTransform d) k)) \<and>
       (\<forall>opr v. Filters q ! i = FilterValueCompare opr v \<longrightarrow>
          Filters (snd (prepareQuery Clean d q)) ! i = FilterValueCompare opr v) \<and>
       (\<forall>opr v. Filters q ! i = FilterValueComparePtr opr v \<longrightarrow>
          Filters (snd (prepareQuery Clean d q)) ! i = FilterValueComparePtr opr v))"
proof -
  have "Filters (snd (prepareQuery Clean d q)) =
      map (rewriteFilter (ConvertKey (KeyTransform d))) (Filters q)"
    using assms by (simp add: prepareQuery_known Let_def)
  then show ?thesis by simp
qed

theorem filters_rewritten_witness:
  "Filters (snd (prepareQuery id nsStore
     (zeroQuery\<lparr>Filters := [FilterKeyPrefix (Some ''/a''), FilterKeyComparePtr ''>'' (Some ''/b''),
        FilterValueCompare ''=='' [1]]\<rparr>))) =
   [FilterKeyPrefix (Some ''/ns/a''), FilterKeyComparePtr ''>'' (Some ''/ns/b''),
    FilterValueCompare ''=='' [1]]"
proof -
  let ?fs = "[FilterKeyPrefix (Some ''/a''), FilterKeyComparePtr ''>'' (Some ''/b''),
        FilterValueCompare ''=='' [1]] :: string Filter list"
  let ?q = "zeroQuery\<lparr>Filters := ?fs\<rparr> :: string Query"
  let ?c = "Filters (snd (prepareQuery id nsStore ?q))"
  have fq: "Filters ?q = ?fs" by simp
  have k: "\<forall>x\<in>set ?fs. knownFilter x" by simp
  have cv: "ConvertKey (KeyTransform nsStore) = map_option (append ''/ns'')"
    by (simp add: nsStore_def nsTransform_def)
  note t = filters_rewritten[of ?q id nsStore, unfolded fq, OF k]
  from t have l: "length ?c = 3" by simp
  note u = t[THEN conjunct2, rule_format]
  have "?c ! 0 = FilterKeyPrefix (Some ''/ns/a'') \<and>
     ?c ! 1 = FilterKeyComparePtr ''>'' (Some ''/ns/b'') \<and>
     ?c ! 2 = FilterValueCompare ''=='' [1]"
    using u[of 0] u[of 1] u[of 2] unfolding cv by simp
  with l have "?c = [FilterKeyPrefix (Some ''/ns/a''), FilterKeyComparePtr ''>'' (Some ''/ns/b''),
    FilterValueCompare ''=='' [1]]"
    by (auto simp: list_eq_iff_nth_eq numeral_3_eq_3 numeral_2_eq_2 less_Suc_eq)
  then show ?thesis .
qed

subsection \<open>The initial values of the two queries\<close>

text \<open>
  Claim C8 as it is written fails: \<^verbatim>\<open>naive\<close> is a named result and starts as the zero
  query, not as a copy of the caller's query. A query with no orders and no filters
  and limit 5 gives a naive query with limit 0.
\<close>

theorem naive_not_copy_counterexample:
  "Limit (fst (prepareQuery id nsStore (zeroQuery\<lparr>Offset := 2, Limit := 5\<rparr>))) \<noteq>
   Limit (zeroQuery\<lparr>Offset := 2, Limit := 5\<rparr> :: string Query)"
  by (simp add: prepareQuery_def convertRange_def zeroRange_def zeroQuery_def Let_def)

text \<open>
  Claim C8, amended: the child query starts as a copy of the caller's query and the
  naive query as the zero query. For a query in which no order forces fallback and every
  filter is of a recognized kind, the naive query returned is the zero query (no orders,
  no filters, offset and limit zero), and the child query has the caller's offset and
  limit.
\<close>

theorem naive_zero_when_delegable:
  assumes "\<not> ordersForceFallback (orderPreserving (DynType (KeyTransform d))) (Orders q)"
    and "\<forall>x\<in>set (Filters q). knownFilter x"
  shows "fst (prepareQuery Clean d q) = zeroQuery \<and>
         Offset (snd (prepareQuery Clean d q)) = Offset q \<and>
         Limit (snd (prepareQuery Clean d q)) = Limit q"
  using assms
  by (simp add: prepareQuery_known Let_def zeroQuery_def scanOrders_Punt_iff)

theorem naive_zero_when_delegable_witness:
  "fst (prepareQuery id nsStore
     (zeroQuery\<lparr>Orders := [OrderByValue, OrderByKey, bySize],
        Filters := [FilterKeyPrefix (Some ''/a'')], Offset := 2, Limit := 5\<rparr>)) = zeroQuery \<and>
   Offset (snd (prepareQuery id nsStore
     (zeroQuery\<lparr>Orders := [OrderByValue, OrderByKey, bySize],
        Filters := [FilterKeyPrefix (Some ''/a'')], Offset := 2, Limit := 5\<rparr>))) = 2 \<and>
   Limit (snd (prepareQuery id nsStore
     (zeroQuery\<lparr>Orders := [OrderByValue, OrderByKey, bySize],
        Filters := [FilterKeyPrefix (Some ''/a'')], Offset := 2, Limit := 5\<rparr>))) = 5"
proof -
  let ?q = "zeroQuery\<lparr>Orders := [OrderByValue, OrderByKey, bySize],
        Filters := [FilterKeyPrefix (Some ''/a'')], Offset := 2, Limit := 5\<rparr> :: string Query"
  have 1: "\<not> ordersForceFallback (orderPreserving (DynType (KeyTransform nsStore))) (Orders ?q)"
    unfolding scanOrders_Punt_iff[symmetric, where i=0]
    by (simp add: nsStore_def nsTransform_def zeroQuery_def)
  have 2: "\<forall>x\<in>set (Filters ?q). knownFilter x"
    by (simp add: zeroQuery_def)
  show ?thesis
    using naive_zero_when_delegable[OF 1 2, of id] by (simp add: zeroQuery_def)
qed

section \<open>Properties of the point operations\<close>

text \<open>
  Claim C6: each of \<^verbatim>\<open>Put\<close>, \<^verbatim>\<open>Get\<close>, \<^verbatim>\<open>Has\<close>, \<^verbatim>\<open>GetSize\<close>, \<^verbatim>\<open>Delete\<close> and \<^verbatim>\<open>Sync\<close> is
  the same operation of the child store on the converted key, with the other arguments
  as they are; result, error and the child's new state are the child's.
\<close>

theorem point_operations_delegate:
  "Datastore_Put d ctx k v s = ds_Put (child d) ctx (ConvertKey (KeyTransform d) k) v s \<and>
   Datastore_Get d ctx k s = ds_Get (child d) ctx (ConvertKey (KeyTransform d) k) s \<and>
   Datastore_Has d ctx k s = ds_Has (child d) ctx (ConvertKey (KeyTransform d) k) s \<and>
   Datastore_GetSize d ctx k s = ds_GetSize (child d) ctx (ConvertKey (KeyTransform d) k) s \<and>
   Datastore_Delete d ctx k s = ds_Delete (child d) ctx (ConvertKey (KeyTransform d) k) s \<and>
   Datastore_Sync d ctx k s = ds_Sync (child d) ctx (ConvertKey (KeyTransform d) k) s"
  by (simp add: Datastore_Put_def Datastore_Get_def Datastore_Has_def Datastore_GetSize_def
      Datastore_Delete_def Datastore_Sync_def)

theorem point_operations_delegate_witness:
  "Datastore_Put nsStore (Context 0) (Some ''/a'') [1, 2] \<lparr>calls = [], stream = []\<rparr> =
     (None, \<lparr>calls = [PutCall (Some ''/ns/a'') [1, 2]], stream = []\<rparr>) \<and>
   Datastore_Get nsStore (Context 0) (Some ''/a'') \<lparr>calls = [], stream = []\<rparr> =
     (([], None), \<lparr>calls = [GetCall (Some ''/ns/a'')], stream = []\<rparr>)"
  using point_operations_delegate[of nsStore "Context 0" "Some ''/a''" "[1, 2]"
      "\<lparr>calls = [], stream = []\<rparr>"]
  by (simp add: nsStore_def nsTransform_def mockStore_def logCall_def)

section \<open>Properties of Query and of its iterator\<close>

lemma Datastore_Query_result:
  "Datastore_Query rfi nqa Clean d ctx q s =
     (case ds_Query (child d) ctx (snd (prepareQuery Clean d q)) s of
        ((cqr, Some e), s') \<Rightarrow> ((None, Some e), s')
      | ((cqr, None), s') \<Rightarrow>
          ((Some (nqa (fst (prepareQuery Clean d q)) (rfi q (Query_Iterator d cqr))), None), s'))"
  by (simp add: Datastore_Query_def Let_def split: prod.splits option.splits)

lemma Query_Next_cases:
  "Query_Next d (Some c) s =
     (case results_NextSync c s of
        ((r, ok), s') \<Rightarrow> Some ((if ok then invertResult d r else r, ok), s'))"
  by (auto simp: Query_Next_def invertResult_def split: prod.splits)

lemma drain_Query_Next:
  "drain n (Query_Next d (Some c)) s =
     map (invertResult d) (drain n (\<lambda>t. Some (results_NextSync c t)) s)"
proof (induction n arbitrary: s)
  case 0
  show ?case by simp
next
  case (Suc n)
  obtain r ok s' where nx: "results_NextSync c s = ((r, ok), s')"
    by (metis surj_pair)
  then have "Query_Next d (Some c) s = Some ((if ok then invertResult d r else r, ok), s')"
    by (simp add: Query_Next_cases)
  with nx show ?case by (simp add: Suc)
qed

text \<open>
  Claim C7 as it is written fails of the stream that \<^verbatim>\<open>Query\<close> returns. \<^verbatim>\<open>Query\<close> hands
  the iterator that inverts the keys to \<^verbatim>\<open>dsq.NaiveQueryApply\<close>, together with the naive
  query, and what \<open>prepareQuery\<close> has left to the naive query is applied to the inverted
  results. The transform below prepends \<^verbatim>\<open>/ns\<close> and is not a \<^verbatim>\<open>PrefixTransform\<close>, and the
  child stream yields the keys \<^verbatim>\<open>/ns/b\<close> and \<^verbatim>\<open>/ns/a\<close>, in this order. With an order by
  key, which is left to the naive query, the stream of \<^verbatim>\<open>Query\<close> yields \<^verbatim>\<open>/a\<close> before
  \<^verbatim>\<open>/b\<close> (first equation; the second one is the child stream with the keys inverted, in
  the order of the child). With a filter of an unknown kind, the entry of the child
  stream that has the empty value is not yielded at all (third equation).
\<close>

theorem Query_inverts_keys_counterexample:
  "Query_entries strOps 5 id plainNsStore (Context 0) (zeroQuery\<lparr>Orders := [OrderByKey]\<rparr>)
     \<lparr>calls = [], stream =
        [\<lparr>Key = Some ''/ns/b'', Value = [1], Size = 1, Error = None\<rparr>,
         \<lparr>Key = Some ''/ns/a'', Value = [2], Size = 1, Error = None\<rparr>]\<rparr> =
   [\<lparr>Key = Some ''/a'', Value = [2], Size = 1\<rparr>, \<lparr>Key = Some ''/b'', Value = [1], Size = 1\<rparr>] \<and>
   map asEntry (map (invertResult plainNsStore)
        [\<lparr>Key = Some ''/ns/b'', Value = [1], Size = 1, Error = None\<rparr>,
         \<lparr>Key = Some ''/ns/a'', Value = [2], Size = 1, Error = None\<rparr>]) =
   [\<lparr>Key = Some ''/b'', Value = [1], Size = 1\<rparr>, \<lparr>Key = Some ''/a'', Value = [2], Size = 1\<rparr>] \<and>
   Query_entries stableOps 5 id plainNsStore (Context 0) (zeroQuery\<lparr>Filters := [nonEmptyValue]\<rparr>)
     \<lparr>calls = [], stream =
        [\<lparr>Key = Some ''/ns/b'', Value = [], Size = 0, Error = None\<rparr>,
         \<lparr>Key = Some ''/ns/a'', Value = [2], Size = 1, Error = None\<rparr>]\<rparr> =
   [\<lparr>Key = Some ''/a'', Value = [2], Size = 1\<rparr>]"
proof -
  let ?s1 = "\<lparr>calls = [], stream =
        [\<lparr>Key = Some ''/ns/b'', Value = [1], Size = 1, Error = None\<rparr>,
         \<lparr>Key = Some ''/ns/a'', Value = [2], Size = 1, Error = None\<rparr>]\<rparr>"
  let ?s2 = "\<lparr>calls = [], stream =
        [\<lparr>Key = Some ''/ns/b'', Value = [], Size = 0, Error = None\<rparr>,
         \<lparr>Key = Some ''/ns/a'', Value = [2], Size = 1, Error = None\<rparr>]\<rparr>"
  have cv: "InvertKey (KeyTransform plainNsStore) = map_option (drop 3)"
    "child plainNsStore = mockStore False"
    by (simp_all add: plainNsStore_def nsTransform_def)
  have p1: "prepareQuery id plainNsStore (zeroQuery\<lparr>Orders := [OrderByKey]\<rparr>) =
      (zeroQuery\<lparr>Orders := [OrderByKey]\<rparr>, zeroQuery)"
    by (simp add: prepareQuery_def convertRange_def zeroQuery_def zeroRange_def Let_def
        plainNsStore_def nsTransform_def puntOrders_def)
  have p2: "prepareQuery id plainNsStore (zeroQuery\<lparr>Filters := [nonEmptyValue]\<rparr>) =
      (zeroQuery\<lparr>Filters := [nonEmptyValue]\<rparr>, zeroQuery)"
    by (simp add: prepareQuery_def convertRange_def zeroQuery_def zeroRange_def Let_def
        plainNsStore_def nsTransform_def puntFilters_def nonEmptyValue_def)
  have d1: "drain 5 (Query_Next plainNsStore (Some mockResults)) (logCall QueryCall ?s1) =
      map (invertResult plainNsStore) (stream ?s1)"
    unfolding drain_Query_Next
    by (simp add: eval_nat_numeral mockResults_def mockNextSync_def logCall_def)
  have d2: "drain 5 (Query_Next plainNsStore (Some mockResults)) (logCall QueryCall ?s2) =
      map (invertResult plainNsStore) (stream ?s2)"
    unfolding drain_Query_Next
    by (simp add: eval_nat_numeral mockResults_def mockNextSync_def logCall_def)
  have 1: "Query_entries strOps 5 id plainNsStore (Context 0) (zeroQuery\<lparr>Orders := [OrderByKey]\<rparr>)
      ?s1 = [\<lparr>Key = Some ''/a'', Value = [2], Size = 1\<rparr>, \<lparr>Key = Some ''/b'', Value = [1], Size = 1\<rparr>]"
    unfolding Query_entries_def Datastore_Query_result p1
    by (simp add: cv mockStore_def naiveOnEntries_def readEntries_def Query_Iterator_def d1
        invertResult_def asEntry_def NaiveQueryApply_def NaiveOrder_def NaiveLimit_def
        NaiveOffset_def zeroQuery_def cmp3_def strOps_def)
  have 2: "Query_entries stableOps 5 id plainNsStore (Context 0)
      (zeroQuery\<lparr>Filters := [nonEmptyValue]\<rparr>) ?s2 = [\<lparr>Key = Some ''/a'', Value = [2], Size = 1\<rparr>]"
    unfolding Query_entries_def Datastore_Query_result p2
    by (simp add: cv mockStore_def naiveOnEntries_def readEntries_def Query_Iterator_def d2
        invertResult_def asEntry_def NaiveQueryApply_def NaiveOrder_def NaiveLimit_def
        NaiveOffset_def zeroQuery_def nonEmptyValue_def)
  show ?thesis unfolding 1 2 by (simp add: invertResult_def asEntry_def cv)
qed

text \<open>
  Claim C7, amended: when the \<^verbatim>\<open>Query\<close> of the child store returns the stream \<open>c\<close> and no
  error, \<^verbatim>\<open>Query\<close> returns, with no error, the stream that \<^verbatim>\<open>dsq.NaiveQueryApply\<close> makes
  of the naive query and of \<^verbatim>\<open>dsq.ResultsFromIterator\<close> on the iterator over \<open>c\<close>. In that
  iterator, a result of the child stream without an error is yielded with its key
  inverted and nothing else changed; a result with an error is yielded as it is, with no
  key inversion; the end of the child stream is the end of the iterator. So the results
  read from the iterator are the results read from the child stream, in the same order,
  each with \<open>invertResult\<close> applied; the caller sees them after the filters, orders, offset
  and limit of the naive query.
\<close>

theorem Query_inverts_keys:
  assumes "ds_Query (child d) ctx (snd (prepareQuery Clean d q)) s = ((Some c, None), s')"
  shows "Datastore_Query rfi nqa Clean d ctx q s =
           ((Some (nqa (fst (prepareQuery Clean d q)) (rfi q (Query_Iterator d (Some c)))), None),
            s') \<and>
         (results_NextSync c t = ((r, True), t') \<and> Error r = None \<longrightarrow>
            Next (Query_Iterator d (Some c)) t =
              Some ((r\<lparr>Key := InvertKey (KeyTransform d) (Key r)\<rparr>, True), t')) \<and>
         (results_NextSync c t = ((r, True), t') \<and> Error r \<noteq> None \<longrightarrow>
            Next (Query_Iterator d (Some c)) t = Some ((r, True), t')) \<and>
         (results_NextSync c t = ((r, False), t') \<longrightarrow>
            Next (Query_Iterator d (Some c)) t = Some ((r, False), t')) \<and>
         drain n (Next (Query_Iterator d (Some c))) t =
           map (invertResult d) (drain n (\<lambda>u. Some (results_NextSync c u)) t)"
  by (simp add: Datastore_Query_result assms Query_Iterator_def Query_Next_def drain_Query_Next)

theorem Query_inverts_keys_witness:
  "Datastore_Query (readEntries 5) (naiveOnEntries strOps) id nsStore (Context 0)
     (zeroQuery\<lparr>Orders := [OrderByKey]\<rparr>)
     \<lparr>calls = [], stream =
        [\<lparr>Key = Some ''/ns/b'', Value = [1], Size = 1, Error = None\<rparr>,
         \<lparr>Key = Some ''/ns/x'', Value = [], Size = 0, Error = Some (Err ''io'')\<rparr>,
         \<lparr>Key = Some ''/ns/a'', Value = [2], Size = 1, Error = None\<rparr>]\<rparr> =
   ((Some (naiveOnEntries strOps zeroQuery
       (readEntries 5 (zeroQuery\<lparr>Orders := [OrderByKey]\<rparr>)
          (Query_Iterator nsStore (Some mockResults)))), None),
    \<lparr>calls = [QueryCall], stream =
        [\<lparr>Key = Some ''/ns/b'', Value = [1], Size = 1, Error = None\<rparr>,
         \<lparr>Key = Some ''/ns/x'', Value = [], Size = 0, Error = Some (Err ''io'')\<rparr>,
         \<lparr>Key = Some ''/ns/a'', Value = [2], Size = 1, Error = None\<rparr>]\<rparr>) \<and>
   drain 5 (Next (Query_Iterator nsStore (Some mockResults)))
     \<lparr>calls = [QueryCall], stream =
        [\<lparr>Key = Some ''/ns/b'', Value = [1], Size = 1, Error = None\<rparr>,
         \<lparr>Key = Some ''/ns/x'', Value = [], Size = 0, Error = Some (Err ''io'')\<rparr>,
         \<lparr>Key = Some ''/ns/a'', Value = [2], Size = 1, Error = None\<rparr>]\<rparr> =
   [\<lparr>Key = Some ''/b'', Value = [1], Size = 1, Error = None\<rparr>,
    \<lparr>Key = Some ''/ns/x'', Value = [], Size = 0, Error = Some (Err ''io'')\<rparr>,
    \<lparr>Key = Some ''/a'', Value = [2], Size = 1, Error = None\<rparr>]"
proof -
  let ?rs = "[\<lparr>Key = Some ''/ns/b'', Value = [1], Size = 1, Error = None\<rparr>,
         \<lparr>Key = Some ''/ns/x'', Value = [], Size = 0, Error = Some (Err ''io'')\<rparr>,
         \<lparr>Key = Some ''/ns/a'', Value = [2], Size = 1, Error = None\<rparr>]"
  let ?s = "\<lparr>calls = [], stream = ?rs\<rparr>"
  let ?s' = "\<lparr>calls = [QueryCall], stream = ?rs\<rparr>"
  let ?q = "zeroQuery\<lparr>Orders := [OrderByKey]\<rparr> :: string Query"
  have pq: "prepareQuery id nsStore ?q = (zeroQuery, ?q)"
    by (simp add: prepareQuery_def convertRange_def zeroQuery_def zeroRange_def Let_def
        nsStore_def nsTransform_def)
  have cq: "ds_Query (child nsStore) (Context 0) (snd (prepareQuery id nsStore ?q)) ?s =
      ((Some mockResults, None), ?s')"
    by (simp add: nsStore_def mockStore_def logCall_def)
  have dr: "drain 5 (\<lambda>u. Some (results_NextSync mockResults u)) ?s' = ?rs"
    by (simp add: eval_nat_numeral mockResults_def mockNextSync_def)
  have iv: "InvertKey (KeyTransform nsStore) = map_option (drop 3)"
    by (simp add: nsStore_def nsTransform_def)
  show ?thesis
    using Query_inverts_keys[OF cq, of "readEntries 5" "naiveOnEntries strOps" ?s' zeroResult ?s' 5]
    by (simp add: pq dr invertResult_def iv)
qed

section \<open>Properties of batches\<close>

text \<open>
  Claim C10: when the child does not implement \<^verbatim>\<open>ds.Batching\<close>, \<^verbatim>\<open>Batch\<close> returns no
  batch and the error \<^verbatim>\<open>ErrBatchUnsupported\<close>, and the child's state is untouched. When
  it does and its \<^verbatim>\<open>Batch\<close> returns a batch without an error, \<^verbatim>\<open>Batch\<close> returns a
  batch whose \<^verbatim>\<open>Put\<close> and \<^verbatim>\<open>Delete\<close> are those of the child's batch on the converted
  key and whose \<^verbatim>\<open>Commit\<close> is the child batch's \<^verbatim>\<open>Commit\<close>.
\<close>

theorem batch_delegates:
  "(ds_Batching (child d) = None \<longrightarrow>
      Datastore_Batch d ctx s = ((None, Some ErrBatchUnsupported), s)) \<and>
   (ds_Batching (child d) = Some mk \<and> mk ctx s = ((Some cb, None), s') \<longrightarrow>
      (\<exists>t. Datastore_Batch d ctx s = ((Some t, None), s') \<and>
         (\<forall>c k v st. transformBatch_Put t c k v st =
            Some (batch_Put cb c (ConvertKey (KeyTransform d) k) v st)) \<and>
         (\<forall>c k st. transformBatch_Delete t c k st =
            Some (batch_Delete cb c (ConvertKey (KeyTransform d) k) st)) \<and>
         (\<forall>c st. transformBatch_Commit t c st = Some (batch_Commit cb c st))))"
  by (simp add: Datastore_Batch_def transformBatch_Put_def transformBatch_Delete_def
      transformBatch_Commit_def)

theorem batch_delegates_witness:
  "Datastore_Batch revStore (Context 0) \<lparr>calls = [], stream = []\<rparr> =
     ((None, Some ErrBatchUnsupported), \<lparr>calls = [], stream = []\<rparr>) \<and>
   (\<exists>t. Datastore_Batch nsStore (Context 0) \<lparr>calls = [], stream = []\<rparr> =
        ((Some t, None), \<lparr>calls = [BatchCall], stream = []\<rparr>) \<and>
      transformBatch_Put t (Context 1) (Some ''/a'') [7] \<lparr>calls = [BatchCall], stream = []\<rparr> =
        Some (None, \<lparr>calls = [BatchCall, BatchPutCall (Some ''/ns/a'') [7]], stream = []\<rparr>) \<and>
      transformBatch_Delete t (Context 1) (Some ''/b'') \<lparr>calls = [BatchCall], stream = []\<rparr> =
        Some (None, \<lparr>calls = [BatchCall, BatchDeleteCall (Some ''/ns/b'')], stream = []\<rparr>) \<and>
      transformBatch_Commit t (Context 1) \<lparr>calls = [BatchCall], stream = []\<rparr> =
        Some (None, \<lparr>calls = [BatchCall, BatchCommitCall], stream = []\<rparr>))"
proof -
  let ?s = "\<lparr>calls = [], stream = []\<rparr>"
  let ?mk = "\<lambda>(ctx :: Context) s. ((Some mockBatch, None :: error option), logCall BatchCall s)"
  have 1: "ds_Batching (child revStore) = None"
    by (simp add: revStore_def mockStore_def)
  have 2: "ds_Batching (child nsStore) = Some ?mk \<and>
     ?mk (Context 0) ?s = ((Some mockBatch, None), \<lparr>calls = [BatchCall], stream = []\<rparr>)"
    by (simp add: nsStore_def mockStore_def logCall_def)
  have cv: "ConvertKey (KeyTransform nsStore) = map_option (append ''/ns'')"
    by (simp add: nsStore_def nsTransform_def)
  from batch_delegates[where d=revStore and ctx="Context 0" and s="?s"] 1
  have a: "Datastore_Batch revStore (Context 0) ?s = ((None, Some ErrBatchUnsupported), ?s)"
    by blast
  from batch_delegates[where d=nsStore and mk="?mk" and ctx="Context 0" and s="?s"
      and cb=mockBatch and s'="\<lparr>calls = [BatchCall], stream = []\<rparr>", THEN conjunct2] 2
  obtain t where t: "Datastore_Batch nsStore (Context 0) ?s =
        ((Some t, None), \<lparr>calls = [BatchCall], stream = []\<rparr>)"
    "\<And>c k v st. transformBatch_Put t c k v st =
            Some (batch_Put mockBatch c (ConvertKey (KeyTransform nsStore) k) v st)"
    "\<And>c k st. transformBatch_Delete t c k st =
            Some (batch_Delete mockBatch c (ConvertKey (KeyTransform nsStore) k) st)"
    "\<And>c st. transformBatch_Commit t c st = Some (batch_Commit mockBatch c st)"
    by blast
  show ?thesis
    using a t(1) by (simp add: t(2,3,4) cv mockBatch_def logCall_def)
qed

section \<open>Properties of prepareQuery on slices\<close>

lemma elems_length:
  "arrs a = Some xs \<Longrightarrow> off + n \<le> length xs \<Longrightarrow> length (elems arrs (Slice a off n)) = n"
  by (simp add: elems_def)

lemma storeAt_other: "b \<noteq> a \<Longrightarrow> storeAt (Slice a off n) i x arrs b = arrs b"
  by (simp add: storeAt_def split: option.splits)

lemma storeAt_same:
  "arrs a = Some xs \<Longrightarrow> storeAt (Slice a off n) i x arrs a = Some (xs[off + i := x])"
  by (simp add: storeAt_def)

lemma elems_storeAt:
  "arrs a = Some xs \<Longrightarrow>
   elems (storeAt (Slice a off n) i x arrs) (Slice a off n) = (elems arrs (Slice a off n))[i := x]"
  by (simp add: elems_def storeAt_def drop_update_swap take_update_swap)

lemma elems_reslice:
  "m \<le> n \<Longrightarrow> elems arrs (resliceTo (Slice a off n) m) = take m (elems arrs (Slice a off n))"
  by (simp add: elems_def min_def split: option.splits)

text \<open>What the loop over the filters does to the store and to the two queries.\<close>

lemma filtersLoopS_spec:
  assumes "filterArrays h a = Some xs" and "off + n \<le> length xs" and "i + k = n"
  shows "(let r = filtersLoopS cv q (Slice a off n) i k (h, nc);
              old = elems (filterArrays h) (Slice a off n)
          in nextAddr (fst r) = nextAddr h \<and> orderArrays (fst r) = orderArrays h \<and>
             (\<forall>b. b \<noteq> a \<longrightarrow> filterArrays (fst r) b = filterArrays h b) \<and>
             (if \<forall>x\<in>set (drop i old). knownFilter x
              then snd r = nc \<and>
                   elems (filterArrays (fst r)) (Slice a off n) =
                     take i old @ map (rewriteFilter cv) (drop i old)
              else snd r = puntFiltersS q nc))"
  using assms
proof (induction k arbitrary: i h xs)
  case 0
  then show ?case by (simp add: elems_length)
next
  case (Suc k)
  let ?sl = "Slice a off n"
  let ?old = "elems (filterArrays h) ?sl"
  have len: "length ?old = n" using Suc.prems by (simp add: elems_length)
  have i: "i < n" using Suc.prems by simp
  have dr: "drop i ?old = ?old ! i # drop (Suc i) ?old"
    using len i by (simp add: Cons_nth_drop_Suc)
  have upd: "\<And>y. let h1 = setFilterS ?sl i y h in
      filterArrays h1 a = Some (xs[off + i := y]) \<and> off + n \<le> length (xs[off + i := y]) \<and>
      nextAddr h1 = nextAddr h \<and> orderArrays h1 = orderArrays h \<and>
      (\<forall>b. b \<noteq> a \<longrightarrow> filterArrays h1 b = filterArrays h b) \<and>
      elems (filterArrays h1) ?sl = ?old[i := y]"
    using Suc.prems
    by (simp add: setFilterS_def storeAt_same storeAt_other elems_storeAt Let_def)
  have tk: "\<And>y. take (Suc i) (?old[i := y]) = take i ?old @ [y]"
    using len i by (simp add: take_Suc_conv_app_nth)
  have dr2: "\<And>y. drop (Suc i) (?old[i := y]) = drop (Suc i) ?old" by simp
  have step: "let r = filtersLoopS cv q ?sl (Suc i) k (setFilterS ?sl i y h, nc)
          in nextAddr (fst r) = nextAddr h \<and> orderArrays (fst r) = orderArrays h \<and>
             (\<forall>b. b \<noteq> a \<longrightarrow> filterArrays (fst r) b = filterArrays h b) \<and>
             (if \<forall>x\<in>set (drop (Suc i) ?old). knownFilter x
              then snd r = nc \<and>
                   elems (filterArrays (fst r)) ?sl =
                     take i ?old @ y # map (rewriteFilter cv) (drop (Suc i) ?old)
              else snd r = puntFiltersS q nc)" for y
  proof -
    let ?h1 = "setFilterS ?sl i y h"
    from upd[of y] Suc.prems
    have "(let r = filtersLoopS cv q ?sl (Suc i) k (?h1, nc);
              old = elems (filterArrays ?h1) ?sl
          in nextAddr (fst r) = nextAddr ?h1 \<and> orderArrays (fst r) = orderArrays ?h1 \<and>
             (\<forall>b. b \<noteq> a \<longrightarrow> filterArrays (fst r) b = filterArrays ?h1 b) \<and>
             (if \<forall>x\<in>set (drop (Suc i) old). knownFilter x
              then snd r = nc \<and>
                   elems (filterArrays (fst r)) ?sl =
                     take (Suc i) old @ map (rewriteFilter cv) (drop (Suc i) old)
              else snd r = puntFiltersS q nc))"
      by (intro Suc.IH[of ?h1 "xs[off + i := y]" "Suc i"]) (simp_all add: Let_def)
    then show ?thesis
      using upd[of y] by (simp add: Let_def tk dr2)
  qed
  have same: "setFilterS ?sl i (?old ! i) h = h"
  proof -
    have "xs ! (off + i) = ?old ! i"
      using Suc.prems i by (simp add: elems_def)
    then have "xs[off + i := ?old ! i] = xs" by (metis list_update_id)
    then have "storeAt ?sl i (?old ! i) (filterArrays h) = filterArrays h"
      using Suc.prems by (auto simp: storeAt_def)
    then show ?thesis by (simp add: setFilterS_def)
  qed
  show ?case
  proof (cases "?old ! i")
    case (FilterValueCompare opr v)
    then show ?thesis
      using step[of "?old ! i"] dr unfolding same by (simp add: Let_def)
  next
    case (FilterValueComparePtr opr v)
    then show ?thesis
      using step[of "?old ! i"] dr unfolding same by (simp add: Let_def)
  next
    case (FilterKeyCompare opr key)
    then show ?thesis
      using step[of "FilterKeyCompare opr (cv key)"] dr by (simp add: Let_def)
  next
    case (FilterKeyComparePtr opr key)
    then show ?thesis
      using step[of "FilterKeyComparePtr opr (cv key)"] dr by (simp add: Let_def)
  next
    case (FilterKeyPrefix p)
    then show ?thesis
      using step[of "FilterKeyPrefix (cv p)"] dr by (simp add: Let_def)
  next
    case (FilterKeyPrefixPtr p)
    then show ?thesis
      using step[of "FilterKeyPrefixPtr (cv p)"] dr by (simp add: Let_def)
  next
    case (FilterOther p)
    then show ?thesis using dr by (simp add: Let_def)
  qed
qed


lemma ordersLoopS_scan:
  "ordersLoopS op q i os nc =
     (case scanOrders op i os of
        AllDelegated \<Rightarrow> nc
      | CutAt m \<Rightarrow> (fst nc, (snd nc)\<lparr>OrdersS := resliceTo (OrdersS (snd nc)) m\<rparr>)
      | Punt \<Rightarrow> puntOrdersS q nc)"
  by (induction os arbitrary: i) (auto split: OrderCase.splits)

lemma ordersLoopS_FiltersS:
  "FiltersS (snd (ordersLoopS op q i os nc)) = FiltersS (snd nc)"
  by (simp add: ordersLoopS_scan puntOrdersS_def split: Scan.splits)

lemma convertRangeS_eq: "convertRangeS cv c = c\<lparr>RangeS := zeroRange\<rparr>"
  by (simp add: convertRangeS_def zeroRange_def Let_def)

lemma afterOrdersS_FiltersS:
  "FiltersS (snd (afterOrdersS Clean d h q)) = FiltersS q"
  by (simp add: afterOrdersS_def ordersLoopS_FiltersS)

lemma prepareQueryS_loops:
  "prepareQueryS Clean d h q =
     (let nc = afterOrdersS Clean d h q;
          cp = copyFilters h (FiltersS q)
      in filtersLoopS (ConvertKey (KeyTransform d)) q (fst cp) 0 (len (fst cp))
           (snd cp, fst nc, (snd nc)\<lparr>FiltersS := fst cp\<rparr>))"
  by (simp add: prepareQueryS_def Let_def convertRangeS_eq afterOrdersS_def ordersLoopS_FiltersS)

lemma prepareQueryS_empty:
  assumes "len (FiltersS q) = 0"
  shows "prepareQueryS Clean d h q =
           (h, fst (afterOrdersS Clean d h q),
            (snd (afterOrdersS Clean d h q))\<lparr>FiltersS := NilSlice\<rparr>)"
  using assms by (simp add: prepareQueryS_loops copyFilters_def Let_def)

lemma prepareQueryS_nonempty:
  assumes "len (FiltersS q) \<noteq> 0"
    and "wfSlice (nextAddr h) (filterArrays h) (FiltersS q)"
  shows "(let r = prepareQueryS Clean d h q;
              nc = afterOrdersS Clean d h q;
              old = elems (filterArrays h) (FiltersS q);
              new = Slice (nextAddr h) 0 (len (FiltersS q))
          in nextAddr (fst r) = nextAddr h + 1 \<and> orderArrays (fst r) = orderArrays h \<and>
             (\<forall>b. b \<noteq> nextAddr h \<longrightarrow> filterArrays (fst r) b = filterArrays h b) \<and>
             (if \<forall>x\<in>set old. knownFilter x
              then snd r = (fst nc, (snd nc)\<lparr>FiltersS := new\<rparr>) \<and>
                   elems (filterArrays (fst r)) new =
                     map (rewriteFilter (ConvertKey (KeyTransform d))) old
              else snd r = puntFiltersS q (fst nc, (snd nc)\<lparr>FiltersS := new\<rparr>)))"
proof -
  let ?n = "len (FiltersS q)"
  let ?old = "elems (filterArrays h) (FiltersS q)"
  let ?a = "nextAddr h"
  let ?h1 = "h\<lparr>nextAddr := ?a + 1, filterArrays := (filterArrays h)(?a \<mapsto> ?old)\<rparr>"
  let ?nc = "afterOrdersS Clean d h q"
  have lo: "length ?old = ?n"
    using assms
    by (cases "FiltersS q") (auto simp: wfSlice_def elems_def split: option.splits)
  have cp: "copyFilters h (FiltersS q) = (Slice ?a 0 ?n, ?h1)"
    using assms(1) by (simp add: copyFilters_def)
  have e1: "elems (filterArrays ?h1) (Slice ?a 0 ?n) = ?old"
    using lo by (simp add: elems_def)
  have "(let r = filtersLoopS (ConvertKey (KeyTransform d)) q (Slice ?a 0 ?n) 0 ?n
                   (?h1, fst ?nc, (snd ?nc)\<lparr>FiltersS := Slice ?a 0 ?n\<rparr>);
              old = elems (filterArrays ?h1) (Slice ?a 0 ?n)
          in nextAddr (fst r) = nextAddr ?h1 \<and> orderArrays (fst r) = orderArrays ?h1 \<and>
             (\<forall>b. b \<noteq> ?a \<longrightarrow> filterArrays (fst r) b = filterArrays ?h1 b) \<and>
             (if \<forall>x\<in>set (drop 0 old). knownFilter x
              then snd r = (fst ?nc, (snd ?nc)\<lparr>FiltersS := Slice ?a 0 ?n\<rparr>) \<and>
                   elems (filterArrays (fst r)) (Slice ?a 0 ?n) =
                     take 0 old @ map (rewriteFilter (ConvertKey (KeyTransform d))) (drop 0 old)
              else snd r = puntFiltersS q (fst ?nc, (snd ?nc)\<lparr>FiltersS := Slice ?a 0 ?n\<rparr>)))"
    by (rule filtersLoopS_spec[where xs="?old"]) (simp_all add: lo)
  then show ?thesis
    unfolding prepareQueryS_loops cp e1 by (simp add: Let_def)
qed


lemma elems_NilSlice: "elems arrs NilSlice = []"
  by (simp add: elems_def)

lemma wfSlice_elems_unchanged:
  assumes "wfSlice nxt arrs sl" and "\<forall>b. b \<noteq> nxt \<longrightarrow> arrs' b = arrs b"
  shows "elems arrs' sl = elems arrs sl"
  using assms by (cases sl) (auto simp: wfSlice_def elems_def)

lemma afterOrdersS_read:
  assumes "wfSlice (nextAddr h) (orderArrays h) (OrdersS q)"
    and "orderArrays h' = orderArrays h"
  shows "(let nc = afterOrdersS Clean d h q;
              sc = scanOrders (orderPreserving (DynType (KeyTransform d))) 0
                     (elems (orderArrays h) (OrdersS q))
          in elems (orderArrays h') (OrdersS (fst nc)) =
               (if sc = Punt then elems (orderArrays h) (OrdersS q) else []) \<and>
             elems (orderArrays h') (OrdersS (snd nc)) =
               (case sc of AllDelegated \<Rightarrow> elems (orderArrays h) (OrdersS q)
                | CutAt n \<Rightarrow> take n (elems (orderArrays h) (OrdersS q)) | Punt \<Rightarrow> []) \<and>
             OffsetS (fst nc) = (if sc = Punt then OffsetS q else 0) \<and>
             LimitS (fst nc) = (if sc = Punt then LimitS q else 0) \<and>
             OffsetS (snd nc) = (if sc = Punt then 0 else OffsetS q) \<and>
             LimitS (snd nc) = (if sc = Punt then 0 else LimitS q) \<and>
             PrefixS (fst nc) = None \<and> RangeS (fst nc) = zeroRange \<and>
             FiltersS (fst nc) = NilSlice \<and>
             PrefixS (snd nc) = ConvertKey (KeyTransform d) (Clean (PrefixS q)) \<and>
             RangeS (snd nc) = zeroRange)"
proof -
  let ?os = "elems (orderArrays h) (OrdersS q)"
  let ?sc = "scanOrders (orderPreserving (DynType (KeyTransform d))) 0 ?os"
  have cut: "elems (orderArrays h) (resliceTo (OrdersS q) m) = take m ?os" if "?sc = CutAt m" for m
  proof (cases "OrdersS q")
    case NilSlice
    with that show ?thesis by (simp add: elems_def)
  next
    case (Slice a off n)
    have "length ?os = n"
      using assms(1) Slice by (auto simp: wfSlice_def elems_def split: option.splits)
    with scanOrders_CutAt_bound[OF that] have "m \<le> n" by simp
    with Slice elems_reslice[of m n "orderArrays h" a off] show ?thesis by simp
  qed
  show ?thesis
    unfolding Let_def afterOrdersS_def ordersLoopS_scan assms(2)
    by (cases ?sc) (simp_all add: zeroQueryS_def puntOrdersS_def elems_NilSlice cut)
qed

lemma prepareQueryS_refines:
  assumes "wfQueryS h q"
  shows "(let r = prepareQueryS Clean d h q
          in readQuery (fst r) (fst (snd r)) = fst (prepareQuery Clean d (readQuery h q)) \<and>
             readQuery (fst r) (snd (snd r)) = snd (prepareQuery Clean d (readQuery h q)))"
proof -
  let ?r = "prepareQueryS Clean d h q"
  let ?nc = "afterOrdersS Clean d h q"
  let ?old = "elems (filterArrays h) (FiltersS q)"
  have wfo: "wfSlice (nextAddr h) (orderArrays h) (OrdersS q)"
    and wff: "wfSlice (nextAddr h) (filterArrays h) (FiltersS q)"
    using assms by (simp_all add: wfQueryS_def)
  have rq: "Orders (readQuery h q) = elems (orderArrays h) (OrdersS q)"
    "Filters (readQuery h q) = ?old" "Offset (readQuery h q) = OffsetS q"
    "Limit (readQuery h q) = LimitS q" "Prefix (readQuery h q) = PrefixS q"
    by (simp_all add: readQuery_def)
  show ?thesis
  proof (cases "len (FiltersS q) = 0")
    case True
    then have emp: "?old = []"
      by (cases "FiltersS q") (auto simp: elems_def split: option.splits)
    have kn: "\<forall>x\<in>set (Filters (readQuery h q)). knownFilter x"
      by (simp add: rq emp)
    show ?thesis
      using afterOrdersS_read[OF wfo refl, of Clean d]
      unfolding prepareQuery_known[OF kn] prepareQueryS_empty[OF True] rq
      by (simp add: Let_def readQuery_def emp elems_NilSlice)
  next
    case False
    note sp = prepareQueryS_nonempty[OF False wff, of Clean d, unfolded Let_def]
    from sp have oa: "orderArrays (fst ?r) = orderArrays h" by blast
    from sp have fa: "\<forall>b. b \<noteq> nextAddr h \<longrightarrow> filterArrays (fst ?r) b = filterArrays h b"
      by blast
    have el: "elems (filterArrays (fst ?r)) (FiltersS q) = ?old"
      using wff fa by (rule wfSlice_elems_unchanged)
    note ao = afterOrdersS_read[OF wfo oa, of Clean d, unfolded Let_def]
    show ?thesis
    proof (cases "\<forall>x\<in>set ?old. knownFilter x")
      case True
      then have kn: "\<forall>x\<in>set (Filters (readQuery h q)). knownFilter x"
        by (simp add: rq)
      from sp True have s: "snd ?r = (fst ?nc, (snd ?nc)\<lparr>FiltersS :=
           Slice (nextAddr h) 0 (len (FiltersS q))\<rparr>)"
        and e: "elems (filterArrays (fst ?r)) (Slice (nextAddr h) 0 (len (FiltersS q))) =
           map (rewriteFilter (ConvertKey (KeyTransform d))) ?old"
        by simp_all
      show ?thesis
        using ao unfolding prepareQuery_known[OF kn] Let_def s rq
        by (simp add: readQuery_def e elems_NilSlice)
    next
      case False
      then have un: "\<exists>x\<in>set (Filters (readQuery h q)). \<not> knownFilter x"
        by (simp add: rq)
      from sp False have s: "snd ?r = puntFiltersS q (fst ?nc, (snd ?nc)\<lparr>FiltersS :=
           Slice (nextAddr h) 0 (len (FiltersS q))\<rparr>)"
        by simp
      show ?thesis
        using ao unfolding prepareQuery_unknown[OF un] Let_def s rq
        by (simp add: readQuery_def el puntFiltersS_def elems_NilSlice)
    qed
  qed
qed


text \<open>
  Claim C9: \<^verbatim>\<open>prepareQuery\<close> leaves the caller's orders and filters as they were. For a
  query whose slices lie in allocated arrays, every array allocated before the call has
  the same contents after it, so the caller's \<^verbatim>\<open>Orders\<close> and \<^verbatim>\<open>Filters\<close> show the same
  elements; and the filters of the child query are \<^verbatim>\<open>nil\<close> or a slice on the array
  allocated by the call, the only array that is written.
\<close>

theorem prepareQuery_frame:
  assumes "wfQueryS h q"
  shows "(let r = prepareQueryS Clean d h q
          in elems (orderArrays (fst r)) (OrdersS q) = elems (orderArrays h) (OrdersS q) \<and>
             elems (filterArrays (fst r)) (FiltersS q) = elems (filterArrays h) (FiltersS q) \<and>
             (\<forall>a<nextAddr h. orderArrays (fst r) a = orderArrays h a \<and>
                filterArrays (fst r) a = filterArrays h a) \<and>
             (FiltersS (snd (snd r)) = NilSlice \<or>
              FiltersS (snd (snd r)) = Slice (nextAddr h) 0 (len (FiltersS q))))"
proof (cases "len (FiltersS q) = 0")
  case True
  then show ?thesis by (simp add: prepareQueryS_empty Let_def)
next
  case False
  let ?r = "prepareQueryS Clean d h q"
  have wf: "wfSlice (nextAddr h) (filterArrays h) (FiltersS q)"
    using assms by (simp add: wfQueryS_def)
  note sp = prepareQueryS_nonempty[OF False wf, of Clean d, unfolded Let_def]
  from sp have oa: "orderArrays (fst ?r) = orderArrays h" by blast
  from sp have fa: "\<forall>b. b \<noteq> nextAddr h \<longrightarrow> filterArrays (fst ?r) b = filterArrays h b"
    by blast
  have el: "elems (filterArrays (fst ?r)) (FiltersS q) = elems (filterArrays h) (FiltersS q)"
    using wf fa by (rule wfSlice_elems_unchanged)
  have sl: "FiltersS (snd (snd ?r)) = NilSlice \<or>
      FiltersS (snd (snd ?r)) = Slice (nextAddr h) 0 (len (FiltersS q))"
    using sp by (auto simp: puntFiltersS_def split: if_splits)
  show ?thesis
    unfolding Let_def using oa fa el sl by auto
qed

theorem prepareQuery_frame_witness:
  "wfQueryS exampleHeap exampleQueryS \<and>
   elems (filterArrays (fst (prepareQueryS id nsStore exampleHeap exampleQueryS)))
       (FiltersS exampleQueryS) =
     [FilterKeyPrefix (Some ''/a''), FilterValueCompare ''=='' [1]] \<and>
   elems (orderArrays (fst (prepareQueryS id nsStore exampleHeap exampleQueryS)))
       (OrdersS exampleQueryS) =
     [OrderByValue, OrderByKey] \<and>
   FiltersS (snd (snd (prepareQueryS id nsStore exampleHeap exampleQueryS))) = Slice 2 0 2 \<and>
   elems (filterArrays (fst (prepareQueryS id nsStore exampleHeap exampleQueryS)))
       (FiltersS (snd (snd (prepareQueryS id nsStore exampleHeap exampleQueryS)))) =
     [FilterKeyPrefix (Some ''/ns/a''), FilterValueCompare ''=='' [1]]"
proof -
  have wf: "wfQueryS exampleHeap exampleQueryS"
    by (simp add: wfQueryS_def wfSlice_def exampleHeap_def exampleQueryS_def)
  have before: "elems (filterArrays exampleHeap) (FiltersS exampleQueryS) =
       [FilterKeyPrefix (Some ''/a''), FilterValueCompare ''=='' [1]]"
    "elems (orderArrays exampleHeap) (OrdersS exampleQueryS) = [OrderByValue, OrderByKey]"
    by (simp_all add: elems_def exampleHeap_def exampleQueryS_def)
  have run: "prepareQueryS id nsStore exampleHeap exampleQueryS =
    (\<lparr>nextAddr = 3, orderArrays = [0 \<mapsto> [OrderByValue, OrderByKey]],
      filterArrays = [1 \<mapsto> [FilterKeyPrefix (Some ''/a''), FilterValueCompare ''=='' [1]],
         2 \<mapsto> [FilterKeyPrefix (Some ''/ns/a''), FilterValueCompare ''=='' [1]]]\<rparr>,
     zeroQueryS,
     \<lparr>PrefixS = Some ''/ns/'', RangeS = zeroRange, OrdersS = Slice 0 0 2,
       FiltersS = Slice 2 0 2, OffsetS = 0, LimitS = 0\<rparr>)"
    by (simp add: prepareQueryS_def convertRangeS_def zeroRange_def Let_def nsStore_def
        nsTransform_def exampleHeap_def exampleQueryS_def elems_def copyFilters_def
        eval_nat_numeral setFilterS_def storeAt_def zeroQueryS_def)
  have after: "elems (filterArrays (fst (prepareQueryS id nsStore exampleHeap exampleQueryS)))
       (FiltersS (snd (snd (prepareQueryS id nsStore exampleHeap exampleQueryS)))) =
     [FilterKeyPrefix (Some ''/ns/a''), FilterValueCompare ''=='' [1]]"
    unfolding run by (simp add: elems_def)
  have sl: "FiltersS (snd (snd (prepareQueryS id nsStore exampleHeap exampleQueryS))) = Slice 2 0 2"
    unfolding run by simp
  show ?thesis
    using prepareQuery_frame[OF wf, of id nsStore] wf before after sl
    by (simp add: Let_def)
qed

section \<open>The split query against the original query\<close>

subsection \<open>Sorting by a comparison\<close>

lemma set_insertBy: "set (insertBy lt x ys) = insert x (set ys)"
  by (induction ys) auto

lemma set_sortBy: "set (sortBy lt xs) = set xs"
  by (induction xs) (auto simp: set_insertBy)

lemma distinct_insertBy: "distinct (insertBy lt x ys) \<longleftrightarrow> x \<notin> set ys \<and> distinct ys"
  by (induction ys) (auto simp: set_insertBy)

lemma distinct_sortBy: "distinct (sortBy lt xs) \<longleftrightarrow> distinct xs"
  by (induction xs) (auto simp: distinct_insertBy set_sortBy)

lemma insertBy_map:
  assumes "\<forall>y\<in>set ys. lt' (g y) (g x) = lt y x"
  shows "insertBy lt' (g x) (map g ys) = map g (insertBy lt x ys)"
  using assms by (induction ys) auto

lemma sortBy_map:
  assumes "\<forall>a\<in>set xs. \<forall>b\<in>set xs. lt' (g a) (g b) = lt a b"
  shows "sortBy lt' (map g xs) = map g (sortBy lt xs)"
  using assms
proof (induction xs)
  case Nil
  show ?case by simp
next
  case (Cons x xs)
  then have "sortBy lt' (map g xs) = map g (sortBy lt xs)" by simp
  moreover have "\<forall>y\<in>set (sortBy lt xs). lt' (g y) (g x) = lt y x"
    using Cons.prems by (simp add: set_sortBy)
  ultimately show ?case by (simp add: insertBy_map)
qed

text \<open>Two comparisons that agree on distinct elements sort a distinct list alike.\<close>

lemma insertBy_cong:
  assumes "\<forall>y\<in>set ys. lt' y x = lt y x"
  shows "insertBy lt' x ys = insertBy lt x ys"
  using assms by (induction ys) auto

lemma sortBy_cong_distinct:
  assumes "distinct xs" and "\<forall>a\<in>set xs. \<forall>b\<in>set xs. a \<noteq> b \<longrightarrow> lt' a b = lt a b"
  shows "sortBy lt' xs = sortBy lt xs"
  using assms
proof (induction xs)
  case Nil
  show ?case by simp
next
  case (Cons x xs)
  then have ih: "sortBy lt' xs = sortBy lt xs" by simp
  have "\<forall>y\<in>set (sortBy lt xs). lt' y x = lt y x"
    using Cons.prems by (auto simp: set_sortBy)
  then show ?case by (simp add: ih insertBy_cong)
qed

text \<open>
  Filtering and sorting commute when the comparison is a strict weak order: then the
  sorted list has everything below \<open>x\<close> before everything else.
\<close>

lemma sorted_insertBy:
  assumes "strictWeak lt" and "sorted_wrt (\<lambda>a b. \<not> lt b a) ys"
  shows "sorted_wrt (\<lambda>a b. \<not> lt b a) (insertBy lt x ys)"
  using assms
proof (induction ys)
  case Nil
  show ?case by simp
next
  case (Cons y ys)
  show ?case
  proof (cases "lt y x")
    case True
    have "\<not> lt x y" using True Cons.prems(1) unfolding strictWeak_def by blast
    moreover have "sorted_wrt (\<lambda>a b. \<not> lt b a) (insertBy lt x ys)"
      using Cons by simp
    ultimately show ?thesis using True Cons.prems(2) by (simp add: set_insertBy)
  next
    case False
    have nt: "\<And>a b c. \<not> lt a b \<Longrightarrow> \<not> lt b c \<Longrightarrow> \<not> lt a c"
      using Cons.prems(1) unfolding strictWeak_def by blast
    have "\<not> lt z x" if "z \<in> set ys" for z
    proof -
      have "\<not> lt z y" using Cons.prems(2) that by simp
      then show ?thesis using False nt by blast
    qed
    then show ?thesis using False Cons.prems(2) by simp
  qed
qed

lemma sorted_sortBy:
  "strictWeak lt \<Longrightarrow> sorted_wrt (\<lambda>a b. \<not> lt b a) (sortBy lt xs)"
  by (induction xs) (simp_all add: sorted_insertBy)

lemma filter_insertBy:
  assumes "strictWeak lt" and "sorted_wrt (\<lambda>a b. \<not> lt b a) ys"
  shows "filter P (insertBy lt x ys) =
           (if P x then insertBy lt x (filter P ys) else filter P ys)"
  using assms
proof (induction ys)
  case Nil
  show ?case by simp
next
  case (Cons y ys)
  show ?case
  proof (cases "lt y x")
    case True
    then show ?thesis using Cons by simp
  next
    case False
    have nt: "\<And>a b c. \<not> lt a b \<Longrightarrow> \<not> lt b c \<Longrightarrow> \<not> lt a c"
      using Cons.prems(1) unfolding strictWeak_def by blast
    have below: "\<not> lt z x" if "z \<in> set ys" for z
    proof -
      have "\<not> lt z y" using Cons.prems(2) that by simp
      then show ?thesis using False nt by blast
    qed
    have hd: "insertBy lt x zs = x # zs" if "set zs \<subseteq> set ys" for zs
      using that below by (cases zs) auto
    have "insertBy lt x (filter P ys) = x # filter P ys"
      by (rule hd) auto
    then show ?thesis using False by (simp add: hd)
  qed
qed

lemma filter_sortBy:
  assumes "strictWeak lt"
  shows "filter P (sortBy lt xs) = sortBy lt (filter P xs)"
  by (induction xs) (simp_all add: filter_insertBy[OF assms sorted_sortBy[OF assms]])

text \<open>
  A comparison that tells any two elements of a list apart leaves one way to sort it:
  every list with the same elements that is in order is the list that \<open>sortBy\<close> yields.
\<close>

lemma sorted_wrt_unique:
  assumes "sorted_wrt (\<lambda>a b. \<not> lt b a) xs" and "sorted_wrt (\<lambda>a b. \<not> lt b a) ys"
    and "distinct xs" and "distinct ys" and "set ys = set xs"
    and "\<forall>a\<in>set xs. \<forall>b\<in>set xs. a \<noteq> b \<longrightarrow> lt a b \<or> lt b a"
  shows "ys = xs"
  using assms
proof (induction xs arbitrary: ys)
  case Nil
  then show ?case by simp
next
  case (Cons x xs)
  from Cons.prems(5) obtain y ys' where ys: "ys = y # ys'" by (cases ys) auto
  have "y = x"
  proof (rule ccontr)
    assume ne: "y \<noteq> x"
    have "y \<in> set xs" using Cons.prems(5) ne unfolding ys by auto
    then have 1: "\<not> lt y x" using Cons.prems(1) by simp
    have "x \<in> set ys'" using Cons.prems(5) ne unfolding ys by auto
    then have 2: "\<not> lt x y" using Cons.prems(2) unfolding ys by simp
    have "y \<in> set (x # xs)" using Cons.prems(5) unfolding ys by auto
    with Cons.prems(6) ne have "lt x y \<or> lt y x" by auto
    with 1 2 show False by simp
  qed
  moreover have "ys' = xs"
  proof (rule Cons.IH)
    show "sorted_wrt (\<lambda>a b. \<not> lt b a) xs" using Cons.prems(1) by simp
    show "sorted_wrt (\<lambda>a b. \<not> lt b a) ys'" using Cons.prems(2) unfolding ys by simp
    show "distinct xs" using Cons.prems(3) by simp
    show "distinct ys'" using Cons.prems(4) unfolding ys by simp
    show "set ys' = set xs"
      using Cons.prems(3,4,5) \<open>y = x\<close> unfolding ys by auto
    show "\<forall>a\<in>set xs. \<forall>b\<in>set xs. a \<noteq> b \<longrightarrow> lt a b \<or> lt b a"
      using Cons.prems(6) by simp
  qed
  ultimately show ?case unfolding ys by simp
qed

lemma sortBy_unique:
  assumes "strictWeak lt" and "distinct xs"
    and "\<forall>a\<in>set xs. \<forall>b\<in>set xs. a \<noteq> b \<longrightarrow> lt a b \<or> lt b a"
    and "sorted_wrt (\<lambda>a b. \<not> lt b a) ys" and "distinct ys" and "set ys = set xs"
  shows "ys = sortBy lt xs"
proof (rule sorted_wrt_unique)
  show "sorted_wrt (\<lambda>a b. \<not> lt b a) (sortBy lt xs)" by (rule sorted_sortBy[OF assms(1)])
  show "sorted_wrt (\<lambda>a b. \<not> lt b a) ys" by (rule assms(4))
  show "distinct (sortBy lt xs)" using assms(2) by (simp add: distinct_sortBy)
  show "distinct ys" by (rule assms(5))
  show "set ys = set (sortBy lt xs)" using assms(6) by (simp add: set_sortBy)
  show "\<forall>a\<in>set (sortBy lt xs). \<forall>b\<in>set (sortBy lt xs). a \<noteq> b \<longrightarrow> lt a b \<or> lt b a"
    using assms(3) by (simp add: set_sortBy)
qed

subsection \<open>The comparison of entries\<close>

lemma cmp3_flip: "cmp3 b a = - cmp3 a b"
  by (auto simp: cmp3_def)

lemma cmp3_le: "cmp3 a b \<le> 0 \<longleftrightarrow> a \<le> b"
  by (auto simp: cmp3_def)

lemma cmp3_eq: "cmp3 a b = 0 \<longleftrightarrow> a = b"
  by (auto simp: cmp3_def)

lemma Order_Compare_flip:
  "orderCase ord \<noteq> CaseNone \<Longrightarrow> Order_Compare ord b a = - Order_Compare ord a b"
  by (cases ord) (auto simp: cmp3_def)

lemma Order_Compare_trans:
  "orderCase ord \<noteq> CaseNone \<Longrightarrow> Order_Compare ord a b \<le> 0 \<Longrightarrow> Order_Compare ord b x \<le> 0 \<Longrightarrow>
   Order_Compare ord a x \<le> 0"
  by (cases ord) (auto simp: cmp3_le)

lemma lex_strictWeak:
  fixes c :: "'a \<Rightarrow> 'a \<Rightarrow> int"
  assumes flip: "\<And>a b. c b a = - c a b"
    and trans: "\<And>a b x. c a b \<le> 0 \<Longrightarrow> c b x \<le> 0 \<Longrightarrow> c a x \<le> 0"
    and sw: "strictWeak lt"
  shows "strictWeak (\<lambda>a b. c a b < 0 \<or> (c a b = 0 \<and> lt a b))"
proof -
  let ?L = "\<lambda>a b. c a b < 0 \<or> (c a b = 0 \<and> lt a b)"
  have asym: "\<And>a b. lt a b \<Longrightarrow> \<not> lt b a"
    and nt: "\<And>a b x. \<not> lt a b \<Longrightarrow> \<not> lt b x \<Longrightarrow> \<not> lt a x"
    using sw unfolding strictWeak_def by blast+
  have 1: "\<not> ?L b a" if "?L a b" for a b
  proof -
    from that consider "c a b < 0" | "c a b = 0" "lt a b" by blast
    then show ?thesis
    proof cases
      case 1
      then have "0 < c b a" using flip[of b a] by simp
      then show ?thesis by simp
    next
      case 2
      then have "c b a = 0" "\<not> lt b a" using flip[of b a] asym by simp_all
      then show ?thesis by simp
    qed
  qed
  have 2: "\<not> ?L a x" if ab: "\<not> ?L a b" and bx: "\<not> ?L b x" for a b x
  proof
    assume ax: "?L a x"
    have ba: "c b a \<le> 0" using ab flip[of b a] by (cases "c a b < 0") auto
    have xb: "c x b \<le> 0" using bx flip[of x b] by (cases "c b x < 0") auto
    have xa: "c x a \<le> 0" using trans[OF xb ba] .
    then have "0 \<le> c a x" using flip[of x a] by simp
    with ax have ax0: "c a x = 0" and lax: "lt a x" by auto
    have "c a b \<le> 0" using trans[of a x b] ax0 xb by simp
    moreover have "0 \<le> c a b" using ba flip[of b a] by simp
    ultimately have "c a b = 0" by simp
    with ab have nab: "\<not> lt a b" by simp
    have "c b x \<le> 0" using trans[of b a x] ba ax0 by simp
    moreover have "0 \<le> c b x" using xb flip[of x b] by simp
    ultimately have "c b x = 0" by simp
    with bx have nbx: "\<not> lt b x" by simp
    from nt[OF nab nbx] lax show False by simp
  qed
  show ?thesis unfolding strictWeak_def using 1 2 by blast
qed

lemma tie_strictWeak: "strictWeak (\<lambda>a b. tie \<and> Key a < Key (b :: 'k::linorder Entry))"
proof (cases tie)
  case True
  have 1: "\<not> Key b < Key a" if "Key a < Key b" for a b :: "'k Entry"
    using that by simp
  have 2: "\<not> Key a < Key c" if "\<not> Key a < Key b" "\<not> Key b < Key c" for a b c :: "'k Entry"
    using that by simp
  have "strictWeak (\<lambda>a b. Key a < Key (b :: 'k Entry))"
    unfolding strictWeak_def using 1 2 by blast
  with True show ?thesis by simp
next
  case False
  then show ?thesis by (simp add: strictWeak_def)
qed

lemma entryLess_strictWeak:
  "\<forall>x\<in>set os. orderCase x \<noteq> CaseNone \<Longrightarrow> strictWeak (entryLess tie os)"
proof (induction os)
  case Nil
  have "entryLess tie [] = (\<lambda>a b. tie \<and> Key a < Key (b :: 'a Entry))"
    by (intro ext) simp
  then show ?case by (simp add: tie_strictWeak)
next
  case (Cons ord os)
  have k: "orderCase ord \<noteq> CaseNone" and sw: "strictWeak (entryLess tie os)"
    using Cons by simp_all
  have "strictWeak (\<lambda>a b. Order_Compare ord a b < 0 \<or>
      (Order_Compare ord a b = 0 \<and> entryLess tie os a b))"
    by (rule lex_strictWeak[OF Order_Compare_flip[OF k] Order_Compare_trans[OF k] sw])
  moreover have "entryLess tie (ord # os) = (\<lambda>a b. Order_Compare ord a b < 0 \<or>
      (Order_Compare ord a b = 0 \<and> entryLess tie os a b))"
    by (intro ext) simp
  ultimately show ?case by simp
qed

text \<open>
  With ties broken by key, orders of the recognized kinds tell any two entries with
  different keys apart.
\<close>

lemma entryLess_total:
  assumes "\<forall>x\<in>set os. orderCase x \<noteq> CaseNone" and "Key a \<noteq> Key b"
  shows "entryLess True os a b \<or> entryLess True os b a"
  using assms
proof (induction os)
  case Nil
  then show ?case by auto
next
  case (Cons ord os)
  have k: "orderCase ord \<noteq> CaseNone" using Cons.prems by simp
  have "Order_Compare ord b a = - Order_Compare ord a b" by (rule Order_Compare_flip[OF k])
  moreover have "entryLess True os a b \<or> entryLess True os b a" using Cons by simp
  ultimately show ?case by auto
qed

text \<open>The orders after an order by key do not matter to entries with different keys.\<close>

lemma entryLess_cut:
  assumes "i < length os" and "orderCase (os ! i) = CaseByKey" and "Key a \<noteq> Key b"
  shows "entryLess tie (take (Suc i) os) a b = entryLess tie os a b"
  using assms
proof (induction os arbitrary: i)
  case Nil
  then show ?case by simp
next
  case (Cons ord os)
  show ?case
  proof (cases i)
    case 0
    with Cons.prems have "orderCase ord = CaseByKey" by simp
    then have "Order_Compare ord a b \<noteq> 0"
      using Cons.prems(3) by (cases ord) (auto simp: cmp3_eq)
    with 0 show ?thesis by simp
  next
    case (Suc m)
    with Cons show ?thesis by simp
  qed
qed

subsection \<open>The post-processor\<close>

lemma fold_filter:
  "fold (\<lambda>x. filter (P x)) fs es = filter (\<lambda>e. \<forall>x\<in>set fs. P x e) es"
proof (induction fs arbitrary: es)
  case Nil
  show ?case by simp
next
  case (Cons x fs)
  show ?case by (simp add: Cons conj_commute)
qed

lemma NaiveQueryApply_pipe:
  "NaiveQueryApply ko q es = pipe ko (Orders q) (Filters q) (Offset q) (Limit q) es"
  by (simp add: NaiveQueryApply_def pipe_def fold_filter)

lemma Naive_map:
  "NaiveLimit m (NaiveOffset n (map g xs)) = map g (NaiveLimit m (NaiveOffset n xs))"
  by (simp add: NaiveLimit_def NaiveOffset_def drop_map take_map)

lemma set_Naive: "set (NaiveLimit m (NaiveOffset n xs)) \<subseteq> set xs"
proof -
  have "set (NaiveLimit m (NaiveOffset n xs)) \<subseteq> set (NaiveOffset n xs)"
    by (auto simp: NaiveLimit_def dest: in_set_takeD)
  also have "\<dots> \<subseteq> set xs" by (auto simp: NaiveOffset_def dest: in_set_dropD)
  finally show ?thesis .
qed

lemma NaiveOrder_Nil: "NaiveOrder tie [] es = es"
  by (simp add: NaiveOrder_def)

lemma set_NaiveOrder: "set (NaiveOrder tie os es) = set es"
  by (simp add: NaiveOrder_def set_sortBy)

lemma length_insertBy: "length (insertBy lt x ys) = Suc (length ys)"
  by (induction ys) auto

lemma length_sortBy: "length (sortBy lt xs) = length xs"
  by (induction xs) (auto simp: length_insertBy)

lemma length_NaiveOrder: "length (NaiveOrder tie os es) = length es"
  by (simp add: NaiveOrder_def length_sortBy)

lemma filter_NaiveOrder:
  assumes "strictWeak (entryLess tie os)"
  shows "filter P (NaiveOrder tie os es) = NaiveOrder tie os (filter P es)"
  by (simp add: NaiveOrder_def filter_sortBy[OF assms])

lemma NaiveOrder_map:
  assumes "os \<noteq> [] \<longrightarrow>
    (\<forall>a\<in>set xs. \<forall>b\<in>set xs. entryLess tie os (g a) (g b) = entryLess tie os a b)"
  shows "NaiveOrder tie os (map g xs) = map g (NaiveOrder tie os xs)"
proof (cases "os = []")
  case True
  then show ?thesis by (simp add: NaiveOrder_def)
next
  case False
  with assms have "sortBy (entryLess tie os) (map g xs) = map g (sortBy (entryLess tie os) xs)"
    by (intro sortBy_map) simp
  with False show ?thesis by (simp add: NaiveOrder_def)
qed

lemma pipe_id: "pipe ko [] [] 0 0 es = es"
  by (simp add: pipe_def NaiveLimit_def NaiveOffset_def NaiveOrder_Nil)

lemma pipe_filters_first:
  "pipe ko [] fs 0 0 es = filter (\<lambda>e. \<forall>x\<in>set fs. Filter_Filter ko x e) es"
  by (simp add: pipe_def NaiveLimit_def NaiveOffset_def NaiveOrder_Nil)

lemma pipe_orders_first: "pipe ko os [] 0 0 es = NaiveOrder (tiesByKey ko) os es"
  by (simp add: pipe_def NaiveLimit_def NaiveOffset_def)

lemma pipe_after_filters: "pipe ko os [] n m (pipe ko [] fs 0 0 es) = pipe ko os fs n m es"
  by (simp add: pipe_filters_first) (simp add: pipe_def)

lemma pipe_after_orders:
  assumes "strictWeak (entryLess (tiesByKey ko) os)"
  shows "pipe ko [] fs n m (pipe ko os [] 0 0 es) = pipe ko os fs n m es"
  by (simp add: pipe_orders_first)
     (simp add: pipe_def NaiveOrder_Nil filter_NaiveOrder[OF assms])

lemma set_pipe: "set (pipe ko os fs n m es) \<subseteq> set es"
proof -
  have "set (pipe ko os fs n m es) \<subseteq>
      set (NaiveOrder (tiesByKey ko) os (filter (\<lambda>e. \<forall>x\<in>set fs. Filter_Filter ko x e) es))"
    unfolding pipe_def by (rule set_Naive)
  also have "\<dots> \<subseteq> set es" by (auto simp: set_NaiveOrder)
  finally show ?thesis .
qed

lemma length_pipe: "length (pipe ko os fs n m es) \<le> length es"
proof -
  have "length (pipe ko os fs n m es) \<le>
      length (filter (\<lambda>e. \<forall>x\<in>set fs. Filter_Filter ko x e) es)"
    by (auto simp: pipe_def NaiveLimit_def NaiveOffset_def length_NaiveOrder)
  also have "\<dots> \<le> length es" by simp
  finally show ?thesis .
qed

text \<open>
  The post-processor commutes with a function on the entries that keeps the comparison
  (where there are orders) and the filters, on the entries of the stream.
\<close>

lemma pipe_map:
  assumes "os \<noteq> [] \<longrightarrow> (\<forall>a\<in>set es. \<forall>b\<in>set es.
      entryLess (tiesByKey ko) os (g a) (g b) = entryLess (tiesByKey ko) os a b)"
    and "\<forall>e\<in>set es. (\<forall>x\<in>set fs'. Filter_Filter ko x (g e)) = (\<forall>x\<in>set fs. Filter_Filter ko x e)"
  shows "pipe ko os fs' n m (map g es) = map g (pipe ko os fs n m es)"
proof -
  let ?ys = "filter (\<lambda>e. \<forall>x\<in>set fs. Filter_Filter ko x e) es"
  have "filter (\<lambda>e. \<forall>x\<in>set fs'. Filter_Filter ko x (g e)) es = ?ys"
    using assms(2) by (intro filter_cong) simp_all
  then have f: "filter (\<lambda>e. \<forall>x\<in>set fs'. Filter_Filter ko x e) (map g es) = map g ?ys"
    by (simp add: filter_map comp_def)
  have "os \<noteq> [] \<longrightarrow> (\<forall>a\<in>set ?ys. \<forall>b\<in>set ?ys.
      entryLess (tiesByKey ko) os (g a) (g b) = entryLess (tiesByKey ko) os a b)"
    using assms(1) by simp
  then have "NaiveOrder (tiesByKey ko) os (map g ?ys) = map g (NaiveOrder (tiesByKey ko) os ?ys)"
    by (rule NaiveOrder_map)
  then show ?thesis by (simp add: pipe_def f Naive_map)
qed

lemma pipe_cut:
  assumes "distinct (map Key es)" and "i < length os" and "orderCase (os ! i) = CaseByKey"
  shows "pipe ko (take (Suc i) os) fs n m es = pipe ko os fs n m es"
proof -
  let ?ys = "filter (\<lambda>e. \<forall>x\<in>set fs. Filter_Filter ko x e) es"
  let ?tie = "tiesByKey ko"
  have d: "distinct (map Key ?ys)" using assms(1) by (simp add: distinct_map_filter)
  then have d2: "distinct ?ys" by (simp add: distinct_map)
  have "\<forall>a\<in>set ?ys. \<forall>b\<in>set ?ys. a \<noteq> b \<longrightarrow>
      entryLess ?tie (take (Suc i) os) a b = entryLess ?tie os a b"
  proof (intro ballI impI)
    fix a b assume "a \<in> set ?ys" "b \<in> set ?ys" "a \<noteq> b"
    then have "Key a \<noteq> Key b" using d by (meson distinct_map inj_onD)
    then show "entryLess ?tie (take (Suc i) os) a b = entryLess ?tie os a b"
      using assms(2,3) by (rule entryLess_cut[rotated 2])
  qed
  then have "sortBy (entryLess ?tie (take (Suc i) os)) ?ys = sortBy (entryLess ?tie os) ?ys"
    using d2 by (intro sortBy_cong_distinct) auto
  moreover have "os \<noteq> []" "take (Suc i) os \<noteq> []" using assms(2) by auto
  ultimately show ?thesis by (simp add: pipe_def NaiveOrder_def)
qed

subsection \<open>The orders that are delegated\<close>

lemma scanOrders_CutAt_D:
  "scanOrders op k os = CutAt n \<Longrightarrow>
   \<exists>i. n = k + i + 1 \<and> i < length os \<and> op \<and> orderCase (os ! i) = CaseByKey \<and>
       (\<forall>j<i. orderCase (os ! j) = CaseByValue)"
proof (induction os arbitrary: k)
  case Nil
  then show ?case by simp
next
  case (Cons ord os)
  show ?case
  proof (cases "orderCase ord")
    case CaseByValue
    with Cons.prems have "scanOrders op (k + 1) os = CutAt n" by simp
    from Cons.IH[OF this] obtain i where i: "n = k + 1 + i + 1" "i < length os" "op"
      "orderCase (os ! i) = CaseByKey" "\<forall>j<i. orderCase (os ! j) = CaseByValue" by blast
    have "\<forall>j<Suc i. orderCase ((ord # os) ! j) = CaseByValue"
      using i(5) CaseByValue by (auto simp: nth_Cons split: nat.splits)
    with i show ?thesis by (intro exI[of _ "Suc i"]) simp
  next
    case CaseByKey
    with Cons.prems show ?thesis by (intro exI[of _ 0]) (auto split: if_splits)
  next
    case CaseNone
    with Cons.prems show ?thesis by simp
  qed
qed

lemma scanOrders_CutAt_set:
  assumes "scanOrders op 0 os = CutAt n" and "x \<in> set (take n os)"
  shows "op \<and> (orderCase x = CaseByValue \<or> orderCase x = CaseByKey)"
proof -
  from scanOrders_CutAt_D[OF assms(1)] obtain i where i: "n = Suc i" "i < length os" "op"
    "orderCase (os ! i) = CaseByKey" "\<forall>j<i. orderCase (os ! j) = CaseByValue" by auto
  from assms(2) obtain j where j: "j < length (take n os)" "x = take n os ! j"
    by (metis in_set_conv_nth)
  then have jn: "j < Suc i" and x: "x = os ! j" using i(1,2) by simp_all
  show ?thesis
  proof (cases "j = i")
    case True
    with x i show ?thesis by simp
  next
    case False
    with jn have "j < i" by simp
    with x i show ?thesis by simp
  qed
qed

subsection \<open>Converted entries\<close>

lemma Order_Compare_convert_value:
  "orderCase ord = CaseByValue \<Longrightarrow>
   Order_Compare ord (convertEntry d a) (convertEntry d b) = Order_Compare ord a b"
  by (cases ord) (simp_all add: convertEntry_def)

lemma Order_Compare_convert_key:
  assumes "orderCase ord = CaseByKey"
    and "(ConvertKey (KeyTransform d) (Key a) < ConvertKey (KeyTransform d) (Key b)) =
         (Key a < Key b)"
    and "(ConvertKey (KeyTransform d) (Key b) < ConvertKey (KeyTransform d) (Key a)) =
         (Key b < Key a)"
  shows "Order_Compare ord (convertEntry d a) (convertEntry d b) = Order_Compare ord a b"
  using assms by (cases ord) (simp_all add: convertEntry_def cmp3_def)

lemma entryLess_convert:
  assumes "\<forall>x\<in>set os. orderCase x = CaseByValue \<or> orderCase x = CaseByKey"
    and "tie \<or> (\<exists>x\<in>set os. orderCase x = CaseByKey) \<longrightarrow>
      (ConvertKey (KeyTransform d) (Key a) < ConvertKey (KeyTransform d) (Key b)) =
        (Key a < Key b) \<and>
      (ConvertKey (KeyTransform d) (Key b) < ConvertKey (KeyTransform d) (Key a)) =
        (Key b < Key a)"
  shows "entryLess tie os (convertEntry d a) (convertEntry d b) = entryLess tie os a b"
  using assms
proof (induction os)
  case Nil
  then show ?case by (auto simp: convertEntry_def)
next
  case (Cons ord os)
  have "Order_Compare ord (convertEntry d a) (convertEntry d b) = Order_Compare ord a b"
  proof (cases "orderCase ord = CaseByValue")
    case True
    then show ?thesis by (rule Order_Compare_convert_value)
  next
    case False
    with Cons.prems(1) have k: "orderCase ord = CaseByKey" by simp
    with Cons.prems(2) show ?thesis by (intro Order_Compare_convert_key) simp_all
  qed
  moreover have "entryLess tie os (convertEntry d a) (convertEntry d b) = entryLess tie os a b"
    using Cons.prems by (intro Cons.IH) auto
  ultimately show ?case by simp
qed

lemma Filter_Filter_convert:
  assumes "knownFilter x" and "keepsFilter ko (ConvertKey (KeyTransform d)) (Key e) x"
  shows "Filter_Filter ko (rewriteFilter (ConvertKey (KeyTransform d)) x) (convertEntry d e) =
         Filter_Filter ko x e"
  using assms by (cases x) (simp_all add: convertEntry_def)

lemma invert_convert:
  assumes "\<forall>e\<in>set xs. InvertKey (KeyTransform d) (ConvertKey (KeyTransform d) (Key e)) = Key e"
  shows "map (invertEntry d) (map (convertEntry d) xs) = xs"
proof -
  have "map (invertEntry d \<circ> convertEntry d) xs = xs"
    using assms by (intro map_idI) (simp add: invertEntry_def convertEntry_def)
  then show ?thesis by simp
qed

text \<open>On a result without an error, the iterator of \<^verbatim>\<open>Query\<close> does what \<open>invertEntry\<close> does.\<close>

lemma invertResult_entry:
  "Error r = None \<Longrightarrow> Entry.truncate (invertResult d r) = invertEntry d (Entry.truncate r)"
  by (simp add: invertResult_def invertEntry_def Entry.truncate_def)

lemma inRange_zero: "inRange zeroRange k"
  by (simp add: inRange_def zeroRange_def)

subsection \<open>Query and the execution of the split\<close>

lemma drain_list:
  "length rs \<le> n \<Longrightarrow> drain n (\<lambda>t. Some (results_NextSync listResults t)) rs = rs"
proof (induction rs arbitrary: n)
  case Nil
  then show ?case by (cases n) (simp_all add: listResults_def listNextSync_def)
next
  case (Cons r rs)
  then obtain m where m: "n = Suc m" "length rs \<le> m" by (cases n) auto
  with Cons.IH[OF m(2)] show ?case by (simp add: listResults_def listNextSync_def)
qed

lemma length_storeQuery: "length (storeQuery ko q es) \<le> length es"
proof -
  have "length (storeQuery ko q es) \<le>
      length (filter (\<lambda>e. inRange (Range q) (Key e))
        (filter (\<lambda>e. underPrefix ko (Prefix q) (Key e)) es))"
    by (simp add: storeQuery_def NaiveQueryApply_pipe length_pipe)
  also have "\<dots> \<le> length (filter (\<lambda>e. underPrefix ko (Prefix q) (Key e)) es)"
    by (rule length_filter_le)
  also have "\<dots> \<le> length es" by (rule length_filter_le)
  finally show ?thesis .
qed

lemma asEntry_invertResult: "asEntry (invertResult d (asResult e)) = invertEntry d e"
  by (simp add: asEntry_def invertResult_def asResult_def invertEntry_def)

text \<open>
  With the child store and the two functions of package \<^verbatim>\<open>query\<close> as modelled,
  \<open>Datastore_Query\<close> returns a stream without an error, and the entries read from it are
  \<open>executeSplit\<close>.
\<close>

lemma Datastore_Query_entries:
  assumes "child d = listStore ko ps" and "length ps \<le> n"
  shows "\<exists>r s'. Datastore_Query (readEntries n) (naiveOnEntries ko) Clean d ctx q s =
            ((Some r, None), s') \<and> r s' = executeSplit ko Clean d q ps"
proof -
  let ?cq = "snd (prepareQuery Clean d q)"
  let ?nq = "fst (prepareQuery Clean d q)"
  let ?xs = "storeQuery ko ?cq ps"
  have len: "length (map asResult ?xs) \<le> n"
    using length_storeQuery[of ko ?cq ps] assms(2) by simp
  have dq: "ds_Query (child d) ctx ?cq s = ((Some listResults, None), map asResult ?xs)"
    by (simp add: assms(1) listStore_def)
  have rd: "drain n (Next (Query_Iterator d (Some listResults))) (map asResult ?xs) =
      map (invertResult d) (map asResult ?xs)"
    using drain_Query_Next[of n d listResults "map asResult ?xs"] drain_list[OF len]
    by (simp add: Query_Iterator_def)
  have "Datastore_Query (readEntries n) (naiveOnEntries ko) Clean d ctx q s =
      ((Some (naiveOnEntries ko ?nq (readEntries n q (Query_Iterator d (Some listResults)))), None),
       map asResult ?xs)"
    by (simp add: Datastore_Query_result dq)
  moreover have "naiveOnEntries ko ?nq (readEntries n q (Query_Iterator d (Some listResults)))
      (map asResult ?xs) = executeSplit ko Clean d q ps"
    by (simp add: naiveOnEntries_def readEntries_def rd executeSplit_def Let_def comp_def
        asEntry_invertResult)
  ultimately show ?thesis by blast
qed

lemma Query_entries_split:
  assumes "child d = listStore ko ps" and "length ps \<le> n"
  shows "Query_entries ko n Clean d ctx q s = executeSplit ko Clean d q ps"
proof -
  from Datastore_Query_entries[OF assms, of Clean ctx q s] obtain r s' where
    "Datastore_Query (readEntries n) (naiveOnEntries ko) Clean d ctx q s = ((Some r, None), s')"
    "r s' = executeSplit ko Clean d q ps" by blast
  then show ?thesis unfolding Query_entries_def by (simp only: prod.case option.case)
qed

subsection \<open>The refinement\<close>

lemma ns_round_trip: "map_option (drop 3) (map_option (append ''/ns'') k) = k"
  by (cases k) simp_all

lemma ns_prefix: "strHasPrefix (map_option (append ''/ns'') p) (map_option (append ''/ns'') k) =
    strHasPrefix p k"
  by (cases p; cases k) simp_all

lemma ns_mono: "(map_option (append ''/ns'') a < map_option (append ''/ns'') b) = (a < (b :: string option))"
  by (cases a; cases b) simp_all

lemma Query_entries_onList:
  "length ps \<le> n \<Longrightarrow>
   Query_entries ko n Clean (onList ko t ps) ctx q s = executeSplit ko Clean (onList ko t ps) q ps"
  by (rule Query_entries_split) (simp_all add: onList_def)

text \<open>
  Claim C1 as it is written fails. Each pair below is a query on a store over a child
  that holds the entries of the logical store with converted keys, against the same
  query on the logical store. A range of the query is applied by neither side of the
  split (first pair). Under a transform that does not preserve the order of keys (here
  it reverses the key), a key-compare filter is delegated with a converted key and
  selects other entries (second pair); under a transform that does not preserve
  prefixes, so do the converted prefix of the query (third pair) and a key-prefix filter
  (fourth pair); and a delegated order by value, with ties broken by key, puts entries
  with equal values in the order of their physical keys (fifth pair). When the child
  store enumerates the same contents in another order than the logical store, here by
  physical key and by logical key, the limit cuts another entry (sixth pair).
\<close>

theorem split_refines_counterexample:
  "Query_entries strOps 5 id
     (onList strOps nsTransform [entryA\<lparr>Key := Some ''/ns/a''\<rparr>, entryB\<lparr>Key := Some ''/ns/b''\<rparr>])
     (Context 0) (zeroQuery\<lparr>Range := \<lparr>Start = Some ''/b'', End = None\<rparr>\<rparr>) [] \<noteq>
   storeQuery strOps (zeroQuery\<lparr>Range := \<lparr>Start = Some ''/b'', End = None\<rparr>\<rparr>) [entryA, entryB] \<and>
   Query_entries strOps 5 id (onList strOps revTransform [entryAB\<lparr>Key := Some ''ba/''\<rparr>])
     (Context 0) (zeroQuery\<lparr>Filters := [FilterKeyCompare ''>'' (Some ''/b'')]\<rparr>) [] \<noteq>
   storeQuery strOps (zeroQuery\<lparr>Filters := [FilterKeyCompare ''>'' (Some ''/b'')]\<rparr>) [entryAB] \<and>
   Query_entries strOps 5 id (onList strOps revTransform [entryAB\<lparr>Key := Some ''ba/''\<rparr>])
     (Context 0) (zeroQuery\<lparr>Prefix := Some ''/a''\<rparr>) [] \<noteq>
   storeQuery strOps (zeroQuery\<lparr>Prefix := Some ''/a''\<rparr>) [entryAB] \<and>
   Query_entries strOps 5 id (onList strOps revTransform [entryAB\<lparr>Key := Some ''ba/''\<rparr>])
     (Context 0) (zeroQuery\<lparr>Filters := [FilterKeyPrefix (Some ''/a'')]\<rparr>) [] \<noteq>
   storeQuery strOps (zeroQuery\<lparr>Filters := [FilterKeyPrefix (Some ''/a'')]\<rparr>) [entryAB] \<and>
   Query_entries strOps 5 id
     (onList strOps revTransform
        [entryAB\<lparr>Key := Some ''ba/''\<rparr>, entryB\<lparr>Key := Some ''b/'', Value := [3]\<rparr>])
     (Context 0) (zeroQuery\<lparr>Orders := [OrderByValue]\<rparr>) [] \<noteq>
   storeQuery strOps (zeroQuery\<lparr>Orders := [OrderByValue]\<rparr>) [entryAB, entryB\<lparr>Value := [3]\<rparr>] \<and>
   Query_entries stableOps 5 id
     (onList stableOps revTransform [entryB\<lparr>Key := Some ''b/''\<rparr>, entryAB\<lparr>Key := Some ''ba/''\<rparr>])
     (Context 0) (zeroQuery\<lparr>Limit := 1\<rparr>) [] \<noteq>
   storeQuery stableOps (zeroQuery\<lparr>Limit := 1\<rparr>) [entryAB, entryB]"
proof -
  have 1: "Query_entries strOps 5 id
     (onList strOps nsTransform [entryA\<lparr>Key := Some ''/ns/a''\<rparr>, entryB\<lparr>Key := Some ''/ns/b''\<rparr>])
     (Context 0) (zeroQuery\<lparr>Range := \<lparr>Start = Some ''/b'', End = None\<rparr>\<rparr>) [] = [entryA, entryB]"
    by (subst Query_entries_onList)
       (simp_all add: executeSplit_def storeQuery_def NaiveQueryApply_def NaiveOrder_def
        prepareQuery_def convertRange_def zeroRange_def zeroQuery_def Let_def onList_def
        nsTransform_def strOps_def inRange_def NaiveLimit_def NaiveOffset_def
        invertEntry_def entryA_def entryB_def)
  have 2: "storeQuery strOps (zeroQuery\<lparr>Range := \<lparr>Start = Some ''/b'', End = None\<rparr>\<rparr>)
     [entryA, entryB] = [entryB]"
    by (simp add: storeQuery_def NaiveQueryApply_def NaiveOrder_def zeroQuery_def
        strOps_def inRange_def NaiveLimit_def NaiveOffset_def entryA_def entryB_def)
  have 3: "Query_entries strOps 5 id (onList strOps revTransform [entryAB\<lparr>Key := Some ''ba/''\<rparr>])
     (Context 0) (zeroQuery\<lparr>Filters := [FilterKeyCompare ''>'' (Some ''/b'')]\<rparr>) [] = [entryAB]"
    by (subst Query_entries_onList)
       (simp_all add: executeSplit_def storeQuery_def NaiveQueryApply_def NaiveOrder_def
        prepareQuery_def convertRange_def zeroRange_def zeroQuery_def Let_def onList_def
        revTransform_def strOps_def inRange_def NaiveLimit_def NaiveOffset_def
        invertEntry_def entryAB_def setFilter_def cmp3_def)
  have 4: "storeQuery strOps (zeroQuery\<lparr>Filters := [FilterKeyCompare ''>'' (Some ''/b'')]\<rparr>)
     [entryAB] = []"
    by (simp add: storeQuery_def NaiveQueryApply_def NaiveOrder_def zeroQuery_def zeroRange_def
        strOps_def inRange_def NaiveLimit_def NaiveOffset_def entryAB_def cmp3_def)
  have 5: "Query_entries strOps 5 id (onList strOps revTransform [entryAB\<lparr>Key := Some ''ba/''\<rparr>])
     (Context 0) (zeroQuery\<lparr>Prefix := Some ''/a''\<rparr>) [] = []"
    by (subst Query_entries_onList)
       (simp_all add: executeSplit_def storeQuery_def NaiveQueryApply_def NaiveOrder_def
        prepareQuery_def convertRange_def zeroRange_def zeroQuery_def Let_def onList_def
        revTransform_def strOps_def inRange_def NaiveLimit_def NaiveOffset_def
        invertEntry_def entryAB_def)
  have 6: "storeQuery strOps (zeroQuery\<lparr>Prefix := Some ''/a''\<rparr>) [entryAB] = [entryAB]"
    by (simp add: storeQuery_def NaiveQueryApply_def NaiveOrder_def zeroQuery_def zeroRange_def
        strOps_def inRange_def NaiveLimit_def NaiveOffset_def entryAB_def)
  have 7: "Query_entries strOps 5 id (onList strOps revTransform [entryAB\<lparr>Key := Some ''ba/''\<rparr>])
     (Context 0) (zeroQuery\<lparr>Filters := [FilterKeyPrefix (Some ''/a'')]\<rparr>) [] = []"
    by (subst Query_entries_onList)
       (simp_all add: executeSplit_def storeQuery_def NaiveQueryApply_def NaiveOrder_def
        prepareQuery_def convertRange_def zeroRange_def zeroQuery_def Let_def onList_def
        revTransform_def strOps_def inRange_def NaiveLimit_def NaiveOffset_def
        invertEntry_def entryAB_def setFilter_def)
  have 8: "storeQuery strOps (zeroQuery\<lparr>Filters := [FilterKeyPrefix (Some ''/a'')]\<rparr>) [entryAB] =
      [entryAB]"
    by (simp add: storeQuery_def NaiveQueryApply_def NaiveOrder_def zeroQuery_def zeroRange_def
        strOps_def inRange_def NaiveLimit_def NaiveOffset_def entryAB_def)
  have 9: "Query_entries strOps 5 id
     (onList strOps revTransform
        [entryAB\<lparr>Key := Some ''ba/''\<rparr>, entryB\<lparr>Key := Some ''b/'', Value := [3]\<rparr>])
     (Context 0) (zeroQuery\<lparr>Orders := [OrderByValue]\<rparr>) [] =
     [entryB\<lparr>Value := [3]\<rparr>, entryAB]"
    by (subst Query_entries_onList)
       (simp_all add: executeSplit_def storeQuery_def NaiveQueryApply_def NaiveOrder_def
        prepareQuery_def convertRange_def zeroRange_def zeroQuery_def Let_def onList_def
        revTransform_def strOps_def inRange_def NaiveLimit_def NaiveOffset_def
        invertEntry_def entryAB_def entryB_def cmp3_def)
  have 10: "storeQuery strOps (zeroQuery\<lparr>Orders := [OrderByValue]\<rparr>)
     [entryAB, entryB\<lparr>Value := [3]\<rparr>] = [entryAB, entryB\<lparr>Value := [3]\<rparr>]"
    by (simp add: storeQuery_def NaiveQueryApply_def NaiveOrder_def zeroQuery_def zeroRange_def
        strOps_def inRange_def NaiveLimit_def NaiveOffset_def entryAB_def entryB_def cmp3_def)
  have 11: "Query_entries stableOps 5 id
     (onList stableOps revTransform [entryB\<lparr>Key := Some ''b/''\<rparr>, entryAB\<lparr>Key := Some ''ba/''\<rparr>])
     (Context 0) (zeroQuery\<lparr>Limit := 1\<rparr>) [] = [entryB]"
    by (subst Query_entries_onList)
       (simp_all add: executeSplit_def storeQuery_def NaiveQueryApply_def NaiveOrder_def
        prepareQuery_def convertRange_def zeroRange_def zeroQuery_def Let_def onList_def
        revTransform_def stableOps_def strOps_def inRange_def NaiveLimit_def NaiveOffset_def
        invertEntry_def entryAB_def entryB_def)
  have 12: "storeQuery stableOps (zeroQuery\<lparr>Limit := 1\<rparr>) [entryAB, entryB] = [entryAB]"
    by (simp add: storeQuery_def NaiveQueryApply_def NaiveOrder_def zeroQuery_def zeroRange_def
        stableOps_def strOps_def inRange_def NaiveLimit_def NaiveOffset_def entryAB_def
        entryB_def)
  show ?thesis unfolding 1 2 3 4 5 6 7 8 9 10 11 12
    by (simp add: entryA_def entryB_def entryAB_def)
qed

text \<open>
  The split against the query, on lists of entries: \<open>es\<close> are the entries of the logical
  store and \<open>ps\<close> those of the child store, each in the order in which its store
  enumerates them.
\<close>

lemma executeSplit_refines:
  fixes d :: "('k::linorder, 's) Datastore"
  assumes rng: "Range q = zeroRange"
    and enum: "ps = map (convertEntry d) es"
    and dk: "distinct (map Key es)"
    and rt: "\<forall>e\<in>set es. InvertKey (KeyTransform d) (ConvertKey (KeyTransform d) (Key e)) = Key e"
    and pfx: "\<forall>e\<in>set es.
        underPrefix ko (ConvertKey (KeyTransform d) (Clean (Prefix q)))
          (ConvertKey (KeyTransform d) (Key e)) =
        underPrefix ko (Prefix q) (Key e)"
    and flt: "(\<forall>x\<in>set (Filters q). knownFilter x) \<longrightarrow>
        (\<forall>x\<in>set (Filters q). \<forall>e\<in>set es.
           keepsFilter ko (ConvertKey (KeyTransform d)) (Key e) x)"
    and mono: "\<not> ordersForceFallback (orderPreserving (DynType (KeyTransform d))) (Orders q) \<and>
        ((\<exists>x\<in>set (Orders q). orderCase x = CaseByKey) \<or> (tiesByKey ko \<and> Orders q \<noteq> []))
        \<longrightarrow> (\<forall>a\<in>set es. \<forall>b\<in>set es.
               (ConvertKey (KeyTransform d) (Key a) < ConvertKey (KeyTransform d) (Key b)) =
               (Key a < Key b))"
  shows "executeSplit ko Clean d q ps = storeQuery ko q es"
proof -
  let ?cv = "ConvertKey (KeyTransform d)"
  let ?op = "orderPreserving (DynType (KeyTransform d))"
  let ?tie = "tiesByKey ko"
  let ?sc = "scanOrders ?op 0 (Orders q)"
  let ?base = "filter (\<lambda>e. underPrefix ko (Prefix q) (Key e)) es"
  let ?nq = "fst (prepareQuery Clean d q)"
  let ?cq = "snd (prepareQuery Clean d q)"
  let ?fs' = "map (rewriteFilter ?cv) (Filters q)"
  have direct: "storeQuery ko q es = pipe ko (Orders q) (Filters q) (Offset q) (Limit q) ?base"
    by (simp add: storeQuery_def NaiveQueryApply_pipe rng inRange_zero)
  have sb: "set ?base \<subseteq> set es" by simp
  have dbase: "distinct (map Key ?base)" using dk by (simp add: distinct_map_filter)
  have "filter (\<lambda>e. underPrefix ko (?cv (Clean (Prefix q))) (?cv (Key e))) es = ?base"
    using pfx by (intro filter_cong) simp_all
  then have cbase: "filter (\<lambda>e. underPrefix ko (?cv (Clean (Prefix q))) (Key e)) ps =
      map (convertEntry d) ?base"
    unfolding enum by (simp add: filter_map comp_def convertEntry_def)
  have pre: "Prefix ?cq = ?cv (Clean (Prefix q))" and rz: "Range ?cq = zeroRange"
    using prepareQuery_Range_zero[of Clean d q]
    by (cases "\<forall>x\<in>set (Filters q). knownFilter x";
        simp add: prepareQuery_known prepareQuery_unknown Let_def)+
  have childq: "storeQuery ko ?cq ps =
      pipe ko (Orders ?cq) (Filters ?cq) (Offset ?cq) (Limit ?cq) (map (convertEntry d) ?base)"
    by (simp add: storeQuery_def NaiveQueryApply_pipe pre rz inRange_zero cbase)
  have split: "executeSplit ko Clean d q ps =
      pipe ko (Orders ?nq) (Filters ?nq) (Offset ?nq) (Limit ?nq)
        (map (invertEntry d)
           (pipe ko (Orders ?cq) (Filters ?cq) (Offset ?cq) (Limit ?cq)
              (map (convertEntry d) ?base)))"
    by (simp add: executeSplit_def Let_def childq NaiveQueryApply_pipe)
  text \<open>Converting and inverting the keys gives the stored entries back.\<close>
  have restored: "map (invertEntry d) (map (convertEntry d) (pipe ko os fs n m ?base)) =
      pipe ko os fs n m ?base" for os fs n m
  proof (rule invert_convert)
    have "set (pipe ko os fs n m ?base) \<subseteq> set es" using set_pipe[of ko os fs n m ?base] sb by blast
    with rt show "\<forall>e\<in>set (pipe ko os fs n m ?base).
        InvertKey (KeyTransform d) (?cv (Key e)) = Key e" by blast
  qed
  text \<open>The orders that the child gets compare converted entries as the originals.\<close>
  have nf: "\<not> ordersForceFallback ?op (Orders q)" if "?sc \<noteq> Punt"
    using that by (simp add: scanOrders_Punt_iff)
  have ord_ok: "os' \<noteq> [] \<longrightarrow> (\<forall>a\<in>set ?base. \<forall>b\<in>set ?base.
      entryLess ?tie os' (convertEntry d a) (convertEntry d b) = entryLess ?tie os' a b)"
    if dlg: "(?sc = AllDelegated \<and> os' = Orders q) \<or> (\<exists>n. ?sc = CutAt n \<and> os' = take n (Orders q))"
    for os'
  proof (intro impI ballI)
    fix a b assume ne: "os' \<noteq> []" and a: "a \<in> set ?base" and b: "b \<in> set ?base"
    have np: "?sc \<noteq> Punt" using dlg by auto
    have sub: "set os' \<subseteq> set (Orders q)" using dlg by (auto dest: in_set_takeD)
    have kinds: "\<forall>x\<in>set os'. orderCase x = CaseByValue \<or> orderCase x = CaseByKey"
    proof
      fix x assume x: "x \<in> set os'"
      from dlg consider "?sc = AllDelegated" "os' = Orders q"
        | n where "?sc = CutAt n" "os' = take n (Orders q)" by blast
      then show "orderCase x = CaseByValue \<or> orderCase x = CaseByKey"
      proof cases
        case 1
        then show ?thesis using x by (simp add: scanOrders_AllDelegated)
      next
        case 2
        have "x \<in> set (take n (Orders q))" using x 2(2) by simp
        from scanOrders_CutAt_set[OF 2(1) this] show ?thesis by blast
      qed
    qed
    have keys: "?tie \<or> (\<exists>x\<in>set os'. orderCase x = CaseByKey) \<longrightarrow>
        (?cv (Key a) < ?cv (Key b)) = (Key a < Key b) \<and>
        (?cv (Key b) < ?cv (Key a)) = (Key b < Key a)"
    proof
      assume "?tie \<or> (\<exists>x\<in>set os'. orderCase x = CaseByKey)"
      then have "(\<exists>x\<in>set (Orders q). orderCase x = CaseByKey) \<or> (?tie \<and> Orders q \<noteq> [])"
        using sub ne by auto
      with mono nf[OF np] have "\<forall>a\<in>set es. \<forall>b\<in>set es. (?cv (Key a) < ?cv (Key b)) = (Key a < Key b)"
        by blast
      moreover have "a \<in> set es" "b \<in> set es" using a b by simp_all
      ultimately show "(?cv (Key a) < ?cv (Key b)) = (Key a < Key b) \<and>
          (?cv (Key b) < ?cv (Key a)) = (Key b < Key a)" by blast
    qed
    show "entryLess ?tie os' (convertEntry d a) (convertEntry d b) = entryLess ?tie os' a b"
      using kinds keys by (rule entryLess_convert)
  qed
  have no_ord: "([] :: 'k Order list) \<noteq> [] \<longrightarrow> (\<forall>a\<in>set ?base. \<forall>b\<in>set ?base.
      entryLess ?tie [] (convertEntry d a) (convertEntry d b) = entryLess ?tie [] a b)"
    by simp
  text \<open>They form a strict weak order, and sort as all the orders of the query do.\<close>
  have ord_sw: "strictWeak (entryLess ?tie os')"
    if "(?sc = AllDelegated \<and> os' = Orders q) \<or> (\<exists>n. ?sc = CutAt n \<and> os' = take n (Orders q))"
    for os'
  proof -
    have "\<forall>x\<in>set os'. orderCase x \<noteq> CaseNone"
    proof
      fix x assume x: "x \<in> set os'"
      from that consider "?sc = AllDelegated" "os' = Orders q"
        | n where "?sc = CutAt n" "os' = take n (Orders q)" by blast
      then show "orderCase x \<noteq> CaseNone"
      proof cases
        case 1
        then show ?thesis using x by (simp add: scanOrders_AllDelegated)
      next
        case 2
        have "x \<in> set (take n (Orders q))" using x 2(2) by simp
        from scanOrders_CutAt_set[OF 2(1) this] show ?thesis by auto
      qed
    qed
    then show ?thesis by (rule entryLess_strictWeak)
  qed
  have cut: "pipe ko (take n (Orders q)) fs k m xs = pipe ko (Orders q) fs k m xs"
    if "?sc = CutAt n" "distinct (map Key xs)" for n fs k m xs
  proof -
    from scanOrders_CutAt_D[OF that(1)] obtain i where i: "n = Suc i" "i < length (Orders q)"
      "orderCase (Orders q ! i) = CaseByKey" by auto
    show ?thesis unfolding i(1) using that(2) i(2,3) by (rule pipe_cut)
  qed
  text \<open>The filters that the child gets hold of a converted entry as the originals.\<close>
  have flt_ok: "\<forall>e\<in>set ?base. (\<forall>x\<in>set ?fs'. Filter_Filter ko x (convertEntry d e)) =
       (\<forall>x\<in>set (Filters q). Filter_Filter ko x e)"
    if kn: "\<forall>x\<in>set (Filters q). knownFilter x"
  proof
    fix e assume e: "e \<in> set ?base"
    have "Filter_Filter ko (rewriteFilter ?cv x) (convertEntry d e) = Filter_Filter ko x e"
      if x: "x \<in> set (Filters q)" for x
    proof (rule Filter_Filter_convert)
      show "knownFilter x" using kn x by blast
      show "keepsFilter ko ?cv (Key e) x" using flt kn x e by simp
    qed
    then show "(\<forall>x\<in>set ?fs'. Filter_Filter ko x (convertEntry d e)) =
       (\<forall>x\<in>set (Filters q). Filter_Filter ko x e)" by simp
  qed
  have nofl: "\<forall>e\<in>set ?base. (\<forall>x\<in>set []. Filter_Filter ko x (convertEntry d e)) =
       (\<forall>x\<in>set []. Filter_Filter ko x e)" by simp
  show ?thesis
  proof (cases "\<forall>x\<in>set (Filters q). knownFilter x")
    case True
    note pq = prepareQuery_known[OF True, of Clean d, unfolded Let_def]
    show ?thesis
    proof (cases ?sc)
      case AllDelegated
      then have dl: "(?sc = AllDelegated \<and> Orders q = Orders q) \<or>
          (\<exists>n. ?sc = CutAt n \<and> Orders q = take n (Orders q))" by simp
      have "executeSplit ko Clean d q ps =
          pipe ko [] [] 0 0 (map (invertEntry d)
            (pipe ko (Orders q) ?fs' (Offset q) (Limit q) (map (convertEntry d) ?base)))"
        unfolding split pq by (simp add: AllDelegated)
      also have "\<dots> = map (invertEntry d) (map (convertEntry d)
          (pipe ko (Orders q) (Filters q) (Offset q) (Limit q) ?base))"
        by (simp only: pipe_id pipe_map[OF ord_ok[OF dl] flt_ok[OF True]])
      also have "\<dots> = pipe ko (Orders q) (Filters q) (Offset q) (Limit q) ?base"
        by (rule restored)
      finally show ?thesis by (simp add: direct)
    next
      case (CutAt n)
      then have dl: "(?sc = AllDelegated \<and> take n (Orders q) = Orders q) \<or>
          (\<exists>m. ?sc = CutAt m \<and> take n (Orders q) = take m (Orders q))" by blast
      have "executeSplit ko Clean d q ps =
          pipe ko [] [] 0 0 (map (invertEntry d)
            (pipe ko (take n (Orders q)) ?fs' (Offset q) (Limit q) (map (convertEntry d) ?base)))"
        unfolding split pq by (simp add: CutAt)
      also have "\<dots> = map (invertEntry d) (map (convertEntry d)
          (pipe ko (take n (Orders q)) (Filters q) (Offset q) (Limit q) ?base))"
        by (simp only: pipe_id pipe_map[OF ord_ok[OF dl] flt_ok[OF True]])
      also have "\<dots> = pipe ko (take n (Orders q)) (Filters q) (Offset q) (Limit q) ?base"
        by (rule restored)
      also have "\<dots> = pipe ko (Orders q) (Filters q) (Offset q) (Limit q) ?base"
        using CutAt dbase by (rule cut)
      finally show ?thesis by (simp add: direct)
    next
      case Punt
      have "executeSplit ko Clean d q ps =
          pipe ko (Orders q) [] (Offset q) (Limit q) (map (invertEntry d)
            (pipe ko [] ?fs' 0 0 (map (convertEntry d) ?base)))"
        unfolding split pq by (simp add: Punt)
      also have "\<dots> = pipe ko (Orders q) [] (Offset q) (Limit q) (map (invertEntry d)
          (map (convertEntry d) (pipe ko [] (Filters q) 0 0 ?base)))"
        by (simp only: pipe_map[OF no_ord flt_ok[OF True]])
      also have "\<dots> = pipe ko (Orders q) [] (Offset q) (Limit q) (pipe ko [] (Filters q) 0 0 ?base)"
        by (simp only: restored)
      also have "\<dots> = pipe ko (Orders q) (Filters q) (Offset q) (Limit q) ?base"
        by (rule pipe_after_filters)
      finally show ?thesis by (simp add: direct)
    qed
  next
    case False
    then have un: "\<exists>x\<in>set (Filters q). \<not> knownFilter x" by simp
    note pq = prepareQuery_unknown[OF un, of Clean d, unfolded Let_def]
    show ?thesis
    proof (cases ?sc)
      case AllDelegated
      then have dl: "(?sc = AllDelegated \<and> Orders q = Orders q) \<or>
          (\<exists>n. ?sc = CutAt n \<and> Orders q = take n (Orders q))" by simp
      have "executeSplit ko Clean d q ps =
          pipe ko [] (Filters q) (Offset q) (Limit q) (map (invertEntry d)
            (pipe ko (Orders q) [] 0 0 (map (convertEntry d) ?base)))"
        unfolding split pq by (simp add: AllDelegated)
      also have "\<dots> = pipe ko [] (Filters q) (Offset q) (Limit q) (map (invertEntry d)
          (map (convertEntry d) (pipe ko (Orders q) [] 0 0 ?base)))"
        by (simp only: pipe_map[OF ord_ok[OF dl] nofl])
      also have "\<dots> = pipe ko [] (Filters q) (Offset q) (Limit q) (pipe ko (Orders q) [] 0 0 ?base)"
        by (simp only: restored)
      also have "\<dots> = pipe ko (Orders q) (Filters q) (Offset q) (Limit q) ?base"
        by (rule pipe_after_orders[OF ord_sw[OF dl]])
      finally show ?thesis by (simp add: direct)
    next
      case (CutAt n)
      then have dl: "(?sc = AllDelegated \<and> take n (Orders q) = Orders q) \<or>
          (\<exists>m. ?sc = CutAt m \<and> take n (Orders q) = take m (Orders q))" by blast
      have "executeSplit ko Clean d q ps =
          pipe ko [] (Filters q) (Offset q) (Limit q) (map (invertEntry d)
            (pipe ko (take n (Orders q)) [] 0 0 (map (convertEntry d) ?base)))"
        unfolding split pq by (simp add: CutAt)
      also have "\<dots> = pipe ko [] (Filters q) (Offset q) (Limit q) (map (invertEntry d)
          (map (convertEntry d) (pipe ko (take n (Orders q)) [] 0 0 ?base)))"
        by (simp only: pipe_map[OF ord_ok[OF dl] nofl])
      also have "\<dots> = pipe ko [] (Filters q) (Offset q) (Limit q)
            (pipe ko (take n (Orders q)) [] 0 0 ?base)"
        by (simp only: restored)
      also have "\<dots> = pipe ko (take n (Orders q)) (Filters q) (Offset q) (Limit q) ?base"
        by (rule pipe_after_orders[OF ord_sw[OF dl]])
      also have "\<dots> = pipe ko (Orders q) (Filters q) (Offset q) (Limit q) ?base"
        using CutAt dbase by (rule cut)
      finally show ?thesis by (simp add: direct)
    next
      case Punt
      have "executeSplit ko Clean d q ps =
          pipe ko (Orders q) (Filters q) (Offset q) (Limit q) (map (invertEntry d)
            (pipe ko [] [] 0 0 (map (convertEntry d) ?base)))"
        unfolding split pq by (simp add: Punt)
      also have "\<dots> = pipe ko (Orders q) (Filters q) (Offset q) (Limit q) (map (invertEntry d)
            (map (convertEntry d) (pipe ko [] [] 0 0 ?base)))"
        by (simp only: pipe_map[OF no_ord nofl])
      also have "\<dots> = pipe ko (Orders q) (Filters q) (Offset q) (Limit q) ?base"
        using restored[of "[]" "[]" 0 0] by (simp only: pipe_id)
      finally show ?thesis by (simp add: direct)
    qed
  qed
qed

text \<open>
  Claim C1, amended. Let the query have no range. Let the logical store hold the entries
  \<open>es\<close>, one for each key, and enumerate them in this order; let the child store hold
  the same entries with converted keys, enumerate them in the same order, and answer a
  query as the specification says (\<open>storeQuery\<close>). On the keys of these entries, let
  \<^verbatim>\<open>InvertKey\<close> undo \<^verbatim>\<open>ConvertKey\<close>, and let a converted key lie under the prefix of the
  child query exactly when the key lies under the prefix of the query. When the filters
  are delegated (all are of recognized kinds), let \<^verbatim>\<open>ConvertKey\<close> keep what each filter on
  keys says of each of these keys. When the ordering is delegated (no order forces
  fallback) and compares keys (there is an order by key, or there are orders and ties
  are broken by key), let \<^verbatim>\<open>ConvertKey\<close> keep the order between these keys. Then the
  entries read from the stream that \<^verbatim>\<open>Query\<close> returns, which are those of executing the
  split (the child query on the child store, each key inverted, the naive query's
  orders, filters, offset and limit on the result), are the same entries in the same
  order as the answer of the logical store to the query. This holds for both rules for
  ties, and for every meaning of the operators and of the prefixes.
\<close>

theorem split_refines:
  fixes d :: "('k::linorder, 'k Result list) Datastore"
  assumes chd: "child d = listStore ko ps" and len: "length ps \<le> n"
    and rng: "Range q = zeroRange"
    and enum: "ps = map (convertEntry d) es"
    and dk: "distinct (map Key es)"
    and rt: "\<forall>e\<in>set es. InvertKey (KeyTransform d) (ConvertKey (KeyTransform d) (Key e)) = Key e"
    and pfx: "\<forall>e\<in>set es.
        underPrefix ko (ConvertKey (KeyTransform d) (Clean (Prefix q)))
          (ConvertKey (KeyTransform d) (Key e)) =
        underPrefix ko (Prefix q) (Key e)"
    and flt: "(\<forall>x\<in>set (Filters q). knownFilter x) \<longrightarrow>
        (\<forall>x\<in>set (Filters q). \<forall>e\<in>set es.
           keepsFilter ko (ConvertKey (KeyTransform d)) (Key e) x)"
    and mono: "\<not> ordersForceFallback (orderPreserving (DynType (KeyTransform d))) (Orders q) \<and>
        ((\<exists>x\<in>set (Orders q). orderCase x = CaseByKey) \<or> (tiesByKey ko \<and> Orders q \<noteq> []))
        \<longrightarrow> (\<forall>a\<in>set es. \<forall>b\<in>set es.
               (ConvertKey (KeyTransform d) (Key a) < ConvertKey (KeyTransform d) (Key b)) =
               (Key a < Key b))"
  shows "Query_entries ko n Clean d ctx q s = storeQuery ko q es \<and>
         executeSplit ko Clean d q ps = storeQuery ko q es"
proof -
  have "executeSplit ko Clean d q ps = storeQuery ko q es"
    using rng enum dk rt pfx flt mono by (rule executeSplit_refines)
  moreover have "Query_entries ko n Clean d ctx q s = executeSplit ko Clean d q ps"
    using chd len by (rule Query_entries_split)
  ultimately show ?thesis by simp
qed

theorem split_refines_witness:
  "Query_entries strOps 5 id
     (onList strOps nsTransform
        [entryB\<lparr>Key := Some ''/ns/b''\<rparr>, entryAB\<lparr>Key := Some ''/ns/ab''\<rparr>,
         entryA\<lparr>Key := Some ''/ns/a''\<rparr>])
     (Context 0)
     (zeroQuery\<lparr>Prefix := Some ''/'', Orders := [OrderByValueDescending, OrderByKey, bySize],
        Filters := [FilterKeyCompare ''>'' (Some ''/a''), nonEmptyValue], Offset := 1, Limit := 1\<rparr>)
     [] =
   storeQuery strOps
     (zeroQuery\<lparr>Prefix := Some ''/'', Orders := [OrderByValueDescending, OrderByKey, bySize],
        Filters := [FilterKeyCompare ''>'' (Some ''/a''), nonEmptyValue], Offset := 1, Limit := 1\<rparr>)
     [entryB, entryAB, entryA] \<and>
   Query_entries strOps 5 id
     (onList strOps nsTransform
        [entryB\<lparr>Key := Some ''/ns/b''\<rparr>, entryAB\<lparr>Key := Some ''/ns/ab''\<rparr>,
         entryA\<lparr>Key := Some ''/ns/a''\<rparr>])
     (Context 0)
     (zeroQuery\<lparr>Prefix := Some ''/'', Orders := [OrderByValue],
        Filters := [FilterKeyPrefix (Some ''/a''), FilterKeyCompare ''<'' (Some ''/b'')]\<rparr>)
     [] =
   storeQuery strOps
     (zeroQuery\<lparr>Prefix := Some ''/'', Orders := [OrderByValue],
        Filters := [FilterKeyPrefix (Some ''/a''), FilterKeyCompare ''<'' (Some ''/b'')]\<rparr>)
     [entryB, entryAB, entryA] \<and>
   Query_entries stableOps 5 id
     (onList stableOps revTransform
        [entryB\<lparr>Key := Some ''b/''\<rparr>, entryAB\<lparr>Key := Some ''ba/''\<rparr>,
         entryA\<lparr>Key := Some ''a/''\<rparr>])
     (Context 0)
     (zeroQuery\<lparr>Orders := [OrderByKey], Filters := [FilterValueCompare ''>'' [1]], Limit := 1\<rparr>)
     [] =
   storeQuery stableOps
     (zeroQuery\<lparr>Orders := [OrderByKey], Filters := [FilterValueCompare ''>'' [1]], Limit := 1\<rparr>)
     [entryB, entryAB, entryA]"
proof -
  let ?q1 = "zeroQuery\<lparr>Prefix := Some ''/'', Orders := [OrderByValueDescending, OrderByKey, bySize],
        Filters := [FilterKeyCompare ''>'' (Some ''/a''), nonEmptyValue], Offset := 1, Limit := 1\<rparr>
        :: string Query"
  let ?q2 = "zeroQuery\<lparr>Prefix := Some ''/'', Orders := [OrderByValue],
        Filters := [FilterKeyPrefix (Some ''/a''), FilterKeyCompare ''<'' (Some ''/b'')]\<rparr>
        :: string Query"
  let ?q3 = "zeroQuery\<lparr>Orders := [OrderByKey], Filters := [FilterValueCompare ''>'' [1]],
        Limit := 1\<rparr> :: string Query"
  let ?es = "[entryB, entryAB, entryA]"
  let ?ns = "[entryB\<lparr>Key := Some ''/ns/b''\<rparr>, entryAB\<lparr>Key := Some ''/ns/ab''\<rparr>,
         entryA\<lparr>Key := Some ''/ns/a''\<rparr>]"
  let ?rv = "[entryB\<lparr>Key := Some ''b/''\<rparr>, entryAB\<lparr>Key := Some ''ba/''\<rparr>,
         entryA\<lparr>Key := Some ''a/''\<rparr>]"
  let ?d1 = "onList strOps nsTransform ?ns"
  let ?d3 = "onList stableOps revTransform ?rv"
  have dk: "distinct (map Key ?es)"
    by (simp add: entryA_def entryB_def entryAB_def)
  have cv1: "ConvertKey (KeyTransform ?d1) = map_option (append ''/ns'')"
    "InvertKey (KeyTransform ?d1) = map_option (drop 3)"
    "DynType (KeyTransform ?d1) = PrefixTransform"
    by (simp_all add: onList_def nsTransform_def)
  have cv3: "ConvertKey (KeyTransform ?d3) = map_option rev"
    "InvertKey (KeyTransform ?d3) = map_option rev"
    "DynType (KeyTransform ?d3) = OtherTransform"
    by (simp_all add: onList_def revTransform_def)
  have ops: "hasPrefix strOps = strHasPrefix" "underPrefix strOps = strHasPrefix"
    "underPrefix stableOps = strHasPrefix"
    by (simp_all add: strOps_def stableOps_def)
  have c1: "child ?d1 = listStore strOps ?ns" and c3: "child ?d3 = listStore stableOps ?rv"
    by (simp_all add: onList_def)
  have l1: "length ?ns \<le> 5" and l3: "length ?rv \<le> 5" by simp_all
  have e1: "?ns = map (convertEntry ?d1) ?es"
    unfolding convertEntry_def cv1 by (simp add: entryA_def entryB_def entryAB_def)
  have e3: "?rv = map (convertEntry ?d3) ?es"
    unfolding convertEntry_def cv3 by (simp add: entryA_def entryB_def entryAB_def)
  have fb: "ordersForceFallback False [OrderByKey :: string Order]"
    by (simp add: ordersForceFallback_def)
  have a: "Query_entries strOps 5 id ?d1 (Context 0) ?q1 [] = storeQuery strOps ?q1 ?es"
    by (rule split_refines[OF c1 l1 _ e1 dk, THEN conjunct1])
       (simp_all add: zeroQuery_def onList_def nsTransform_def ops ns_round_trip ns_prefix ns_mono nonEmptyValue_def
          entryA_def entryB_def entryAB_def)
  have b: "Query_entries strOps 5 id ?d1 (Context 0) ?q2 [] = storeQuery strOps ?q2 ?es"
    by (rule split_refines[OF c1 l1 _ e1 dk, THEN conjunct1])
       (simp_all add: zeroQuery_def onList_def nsTransform_def ops ns_round_trip ns_prefix ns_mono cmp3_def
          entryA_def entryB_def entryAB_def)
  have c: "Query_entries stableOps 5 id ?d3 (Context 0) ?q3 [] = storeQuery stableOps ?q3 ?es"
    by (rule split_refines[OF c3 l3 _ e3 dk, THEN conjunct1])
       (simp_all add: zeroQuery_def onList_def revTransform_def ops fb entryA_def entryB_def entryAB_def)
  show ?thesis using a b c by simp
qed

end
